theory Spec2Isabelle
  imports Complex_Main "HOL-Library.Multiset"
begin

section \<open>Python values, dictionaries and exceptions\<close>

text \<open>
  The records handled by \<^verbatim>\<open>prisma_generator.py\<close> are dictionaries loaded from JSON.
  A value is \<open>None\<close>, a number, a string, a list or a dictionary. A number carries the
  value of the Python \<open>int\<close> or finite \<open>float\<close>; the code only compares, copies and
  prints numbers, so no rounding reaches a result (NaN is outside the model). The JSON booleans are
  the numbers 1 and 0, which is how Python compares, hashes and formats them. Strings are
  sequences of code points below 256.

  A dictionary is an association list in insertion order with distinct keys: \<open>map_of\<close>
  is the lookup, and \<open>dict_set\<close> is the assignment \<^verbatim>\<open>d[k] = v\<close>, which keeps the place
  of a key that is present and appends a new key.
\<close>

datatype jval =
    JNull
  | JNum real
  | JStr string
  | JList "jval list"
  | JObj "(string \<times> jval) list"

type_synonym pydict = "(string \<times> jval) list"

datatype error =
  AttributeError | TypeError | ValueError | KeyError | IndexError | EOFError | OverflowError

primrec dict_set :: "string \<Rightarrow> jval \<Rightarrow> pydict \<Rightarrow> pydict" where
  "dict_set k v [] = [(k, v)]"
| "dict_set k v (p # ps) = (if fst p = k then (k, v) # ps else p # dict_set k v ps)"

text \<open>\<^verbatim>\<open>d.get(k, default)\<close>; \<^verbatim>\<open>d.get(k)\<close> is \<open>dict_get d k JNull\<close>.\<close>

definition dict_get :: "pydict \<Rightarrow> string \<Rightarrow> jval \<Rightarrow> jval" where
  "dict_get d k dflt = (case map_of d k of None \<Rightarrow> dflt | Some v \<Rightarrow> v)"

text \<open>Truth value of a Python object, as \<^verbatim>\<open>if x:\<close> tests it.\<close>

fun truthy :: "jval \<Rightarrow> bool" where
  "truthy JNull = False"
| "truthy (JNum r) = (r \<noteq> 0)"
| "truthy (JStr s) = (s \<noteq> [])"
| "truthy (JList xs) = (xs \<noteq> [])"
| "truthy (JObj d) = (d \<noteq> [])"

text \<open>\<^verbatim>\<open>str.strip()\<close> and \<^verbatim>\<open>str.lower()\<close> on code points below 256.\<close>

definition is_space :: "char \<Rightarrow> bool" where
  "is_space c =
     (let n = (of_char c :: nat)
      in (9 \<le> n \<and> n \<le> 13) \<or> (28 \<le> n \<and> n \<le> 32) \<or> n = 133 \<or> n = 160)"

definition str_strip :: "string \<Rightarrow> string" where
  "str_strip s = rev (dropWhile is_space (rev (dropWhile is_space s)))"

definition lower_char :: "char \<Rightarrow> char" where
  "lower_char c =
     (let n = (of_char c :: nat)
      in if (65 \<le> n \<and> n \<le> 90) \<or> (192 \<le> n \<and> n \<le> 222 \<and> n \<noteq> 215)
         then char_of (n + 32) else c)"

definition str_lower :: "string \<Rightarrow> string" where
  "str_lower s = map lower_char s"

text \<open>
  \<^verbatim>\<open>v.strip()\<close> on a value read from a dictionary: only a string has the method.
\<close>

definition py_strip :: "jval \<Rightarrow> error + string" where
  "py_strip v = (case v of JStr s \<Rightarrow> Inr (str_strip s) | _ \<Rightarrow> Inl AttributeError)"

text \<open>
  \<^verbatim>\<open>v[:n]\<close>: strings and lists can be sliced. A dictionary raises as well
  (\<open>TypeError\<close> up to Python 3.11, \<open>KeyError\<close> from 3.12 on; the model says \<open>TypeError\<close>).
\<close>

definition py_slice :: "jval \<Rightarrow> error + unit" where
  "py_slice v = (case v of JStr _ \<Rightarrow> Inr () | JList _ \<Rightarrow> Inr () | _ \<Rightarrow> Inl TypeError)"

text \<open>
  The format specification \<^verbatim>\<open>{v:.2f}\<close> of an f-string. A number is converted to a
  \<open>float\<close> first; an \<open>int\<close> that rounds beyond the largest double, that is, of
  magnitude at least \<open>2 ^ 1024 - 2 ^ 970\<close>, raises \<open>OverflowError\<close>. Every finite \<open>float\<close>
  lies below that bound.
\<close>

definition fmt_2f :: "jval \<Rightarrow> error + unit" where
  "fmt_2f v =
     (case v of
        JNum r \<Rightarrow> if 2 ^ 1024 - 2 ^ 970 \<le> \<bar>r\<bar> then Inl OverflowError else Inr ()
      | JStr _ \<Rightarrow> Inl ValueError
      | _ \<Rightarrow> Inl TypeError)"

text \<open>Members of a \<^verbatim>\<open>set\<close> must be hashable.\<close>

fun hashable :: "jval \<Rightarrow> bool" where
  "hashable (JList _) = False"
| "hashable (JObj _) = False"
| "hashable _ = True"

text \<open>Runs a check over a list and stops at the first exception, as a \<^verbatim>\<open>for\<close> loop does.\<close>

fun for_each :: "('a \<Rightarrow> error + unit) \<Rightarrow> 'a list \<Rightarrow> error + unit" where
  "for_each f [] = Inr ()"
| "for_each f (x # xs) = (case f x of Inl e \<Rightarrow> Inl e | Inr _ \<Rightarrow> for_each f xs)"

section \<open>The world: object store, terminal input and clock\<close>

text \<open>
  Paper records are Python objects, and the merge installs \<^verbatim>\<open>duplicate_sources\<close> on one
  of its arguments in place, so the lists of the program hold references (addresses) into
  a store. \<open>top\<close> is the next free address; \<^verbatim>\<open>dict.copy()\<close> allocates there.
  \<open>stdin\<close> are the lines that \<^verbatim>\<open>input()\<close> will return, in order; at the end of the input
  \<^verbatim>\<open>input()\<close> raises \<open>EOFError\<close>. The \<open>n\<close>-th call of
  \<^verbatim>\<open>datetime.now().isoformat()\<close> returns \<open>clock n\<close>; \<open>ticks\<close> counts the calls made.
  What \<^verbatim>\<open>print\<close> writes is not part of the model; an exception raised while the
  arguments of a \<^verbatim>\<open>print\<close> are evaluated is.
\<close>

record world =
  heap :: "nat \<Rightarrow> pydict"
  top :: nat
  stdin :: "string list"
  clock :: "nat \<Rightarrow> string"
  ticks :: nat

definition now_isoformat :: "world \<Rightarrow> string \<times> world" where
  "now_isoformat w = (clock w (ticks w), w\<lparr>ticks := Suc (ticks w)\<rparr>)"

definition alloc :: "pydict \<Rightarrow> world \<Rightarrow> nat \<times> world" where
  "alloc d w = (top w, w\<lparr>heap := (heap w)(top w := d), top := Suc (top w)\<rparr>)"

section \<open>resolve\_screening\_conflict\<close>

text \<open>Lines 185-188: the names of the first three authors are joined with a comma.\<close>

definition author_name_ok :: "jval \<Rightarrow> bool" where
  "author_name_ok a =
     (case a of
        JObj d \<Rightarrow> (case map_of d ''name'' of None \<Rightarrow> True | Some (JStr _) \<Rightarrow> True | Some _ \<Rightarrow> False)
      | _ \<Rightarrow> True)"

definition show_authors :: "pydict \<Rightarrow> error + unit" where
  "show_authors paper =
     (case dict_get paper ''authors'' (JList []) of
        JList authors \<Rightarrow>
          if authors \<noteq> [] \<and> \<not> list_all author_name_ok (take 3 authors)
          then Inl TypeError else Inr ()
      | _ \<Rightarrow> Inr ())"

text \<open>
  Lines 191-193: \<^verbatim>\<open>paper["abstract"][:300] + "..." if len(paper["abstract"]) > 300
  else paper["abstract"]\<close>, evaluated when the abstract is truthy. A number has no
  length; a list of more than 300 elements cannot be joined with the string; a dictionary
  of more than 300 keys cannot be sliced.
\<close>

definition show_abstract :: "pydict \<Rightarrow> error + unit" where
  "show_abstract paper =
     (let abstract = dict_get paper ''abstract'' JNull
      in if truthy abstract then
           (case abstract of
              JStr _ \<Rightarrow> Inr ()
            | JList xs \<Rightarrow> if length xs > 300 then Inl TypeError else Inr ()
            | JObj d \<Rightarrow> if length d > 300 then Inl TypeError else Inr ()
            | _ \<Rightarrow> Inl TypeError)
         else Inr ())"

text \<open>Lines 197-204: one line per conflicting decision, the confidence with two decimals.\<close>

definition show_decision :: "pydict \<Rightarrow> error + unit" where
  "show_decision p = fmt_2f (dict_get p ''confidence'' (JNum 0))"

text \<open>Lines 183-211, everything printed before the prompt.\<close>

definition show_conflict :: "pydict list \<Rightarrow> error + unit" where
  "show_conflict conflicted_papers =
     (case conflicted_papers of
        [] \<Rightarrow> Inl IndexError
      | paper # _ \<Rightarrow>
          (case show_authors paper of Inl e \<Rightarrow> Inl e | Inr _ \<Rightarrow>
          (case show_abstract paper of Inl e \<Rightarrow> Inl e | Inr _ \<Rightarrow>
             for_each show_decision conflicted_papers)))"

text \<open>Lines 302-314, option 5: the detailed analysis of one member.\<close>

definition show_detail :: "pydict \<Rightarrow> error + unit" where
  "show_detail p =
     (case fmt_2f (dict_get p ''confidence'' (JNum 0)) of Inl e \<Rightarrow> Inl e | Inr _ \<Rightarrow>
        if truthy (dict_get p ''manual_screening'' JNull) then
          (case dict_get p ''manual_screening'' JNull of
             JObj manual \<Rightarrow> py_slice (dict_get manual ''timestamp'' (JStr ''Unknown''))
           | _ \<Rightarrow> Inl AttributeError)
        else Inr ())"

text \<open>The entries of \<^verbatim>\<open>original_decisions\<close> and the \<^verbatim>\<open>conflict_resolution\<close> block.\<close>

definition original_decision :: "pydict \<Rightarrow> jval" where
  "original_decision p =
     JObj [(''query'', dict_get p ''source_query_description'' JNull),
           (''decision'', dict_get p ''decision'' JNull),
           (''confidence'', dict_get p ''confidence'' JNull),
           (''reason'', dict_get p ''reason'' JNull)]"

definition conflict_resolution :: "string \<Rightarrow> string \<Rightarrow> pydict \<Rightarrow> pydict list \<Rightarrow> jval" where
  "conflict_resolution method timestamp selected conflicted_papers =
     JObj ([(''method'', JStr method), (''timestamp'', JStr timestamp)] @ selected @
           [(''original_decisions'', JList (map original_decision conflicted_papers))])"

text \<open>
  Options 1 and 2 (lines 216-256). The reason embeds the text Python prints for the list
  of decisions; \<open>rp\<close> stands for that conversion (\<^verbatim>\<open>str\<close> of a list), which the
  model leaves open.
\<close>

definition manual_choice ::
  "(jval \<Rightarrow> string) \<Rightarrow> string \<Rightarrow> string \<Rightarrow> pydict list \<Rightarrow> world \<Rightarrow> error + (nat \<times> world)" where
  "manual_choice rp decision method conflicted_papers w =
     (case conflicted_papers of
        [] \<Rightarrow> Inl IndexError
      | first # _ \<Rightarrow>
          let (timestamp, w1) = now_isoformat w;
              reason = ''Manual conflict resolution: User chose to '' @ decision @
                       '' (had conflicts: '' @
                       rp (JList (map (\<lambda>p. dict_get p ''decision'' JNull) conflicted_papers)) @
                       '')'';
              resolved_paper =
                dict_set ''conflict_resolution''
                  (conflict_resolution method timestamp [] conflicted_papers)
                  (dict_set ''reason'' (JStr reason)
                    (dict_set ''confidence'' (JNum 1)
                      (dict_set ''decision'' (JStr decision) first)))
          in Inr (alloc resolved_paper w1))"

text \<open>
  Option 3 (lines 258-277). \<^verbatim>\<open>max\<close> keeps the first of several maximal members: a
  later member replaces the best so far only when its key is strictly greater. The keys
  are numbers here, since \<open>show_conflict\<close> has formatted every confidence before the
  prompt; the guard on them only makes the function total. Line 276 reads
  \<^verbatim>\<open>resolved_paper['decision']\<close> with a subscript.
\<close>

definition confidence_key :: "pydict \<Rightarrow> real" where
  "confidence_key p = (case dict_get p ''confidence'' (JNum 0) of JNum r \<Rightarrow> r | _ \<Rightarrow> 0)"

definition confidence_is_num :: "pydict \<Rightarrow> bool" where
  "confidence_is_num p = (case dict_get p ''confidence'' (JNum 0) of JNum _ \<Rightarrow> True | _ \<Rightarrow> False)"

fun max_by :: "('a \<Rightarrow> real) \<Rightarrow> 'a \<Rightarrow> 'a list \<Rightarrow> 'a" where
  "max_by key best [] = best"
| "max_by key best (x # xs) = (if key x > key best then max_by key x xs else max_by key best xs)"

definition highest_confidence :: "pydict list \<Rightarrow> world \<Rightarrow> error + (nat \<times> world)" where
  "highest_confidence conflicted_papers w =
     (case conflicted_papers of
        [] \<Rightarrow> Inl ValueError
      | first # rest \<Rightarrow>
          if \<not> list_all confidence_is_num conflicted_papers then Inl TypeError
          else
            let highest_confidence_paper = max_by confidence_key first rest;
                (timestamp, w1) = now_isoformat w;
                resolved_paper =
                  dict_set ''conflict_resolution''
                    (conflict_resolution ''highest_confidence'' timestamp
                       [(''selected_confidence'', dict_get highest_confidence_paper ''confidence'' JNull),
                        (''selected_from_query'',
                           dict_get highest_confidence_paper ''source_query_description'' JNull)]
                       conflicted_papers)
                    highest_confidence_paper
            in (case map_of resolved_paper ''decision'' of
                  None \<Rightarrow> Inl KeyError
                | Some _ \<Rightarrow> Inr (alloc resolved_paper w1)))"

text \<open>Option 4 (lines 279-297): the last member; line 296 subscripts the decision too.\<close>

definition most_recent :: "pydict list \<Rightarrow> world \<Rightarrow> error + (nat \<times> world)" where
  "most_recent conflicted_papers w =
     (case conflicted_papers of
        [] \<Rightarrow> Inl IndexError
      | _ # _ \<Rightarrow>
          let most_recent_paper = last conflicted_papers;
              (timestamp, w1) = now_isoformat w;
              resolved_paper =
                dict_set ''conflict_resolution''
                  (conflict_resolution ''most_recent'' timestamp
                     [(''selected_from_query'',
                         dict_get most_recent_paper ''source_query_description'' JNull)]
                     conflicted_papers)
                  most_recent_paper
          in (case map_of resolved_paper ''decision'' of
                None \<Rightarrow> Inl KeyError
              | Some _ \<Rightarrow> Inr (alloc resolved_paper w1)))"

text \<open>
  The prompt loop (lines 213-319). Each iteration reads one line; the recursion is on the
  lines still to come, and the end of the input is \<open>EOFError\<close>.
\<close>

fun prompt_loop ::
  "(jval \<Rightarrow> string) \<Rightarrow> pydict list \<Rightarrow> string list \<Rightarrow> world \<Rightarrow> error + (nat \<times> world)" where
  "prompt_loop rp conflicted_papers [] w = Inl EOFError"
| "prompt_loop rp conflicted_papers (line # lines) w =
     (let choice = str_strip line; w1 = w\<lparr>stdin := lines\<rparr>
      in if choice = ''1'' then manual_choice rp ''INCLUDE'' ''manual_include'' conflicted_papers w1
         else if choice = ''2'' then manual_choice rp ''EXCLUDE'' ''manual_exclude'' conflicted_papers w1
         else if choice = ''3'' then highest_confidence conflicted_papers w1
         else if choice = ''4'' then most_recent conflicted_papers w1
         else if choice = ''5'' then
           (case for_each show_detail conflicted_papers of
              Inl e \<Rightarrow> Inl e
            | Inr _ \<Rightarrow> prompt_loop rp conflicted_papers lines w1)
         else prompt_loop rp conflicted_papers lines w1)"

text \<open>
  The function takes the references of the group and reads the members from the store;
  it does not assign to any of them. \<open>identifier\<close> is only printed.
\<close>

definition resolve_screening_conflict ::
  "(jval \<Rightarrow> string) \<Rightarrow> nat list \<Rightarrow> string \<Rightarrow> world \<Rightarrow> error + (nat \<times> world)" where
  "resolve_screening_conflict rp conflicted_papers identifier w =
     (let members = map (heap w) conflicted_papers
      in case show_conflict members of
           Inl e \<Rightarrow> Inl e
         | Inr _ \<Rightarrow> prompt_loop rp members (stdin w) w)"

section \<open>deduplicate\_with\_conflict\_resolution\<close>

text \<open>Lines 103-104: both identifiers are read and stripped before either is used.\<close>

definition read_identifiers :: "pydict \<Rightarrow> error + (string \<times> string)" where
  "read_identifiers paper =
     (case py_strip (dict_get paper ''doi'' (JStr [])) of
        Inl e \<Rightarrow> Inl e
      | Inr s \<Rightarrow>
          (case py_strip (dict_get paper ''openalex_id'' (JStr [])) of
             Inl e \<Rightarrow> Inl e
           | Inr openalex_id \<Rightarrow> Inr (str_lower s, openalex_id)))"

text \<open>Line 106 prints the first 50 characters of the title.\<close>

definition debug_title :: "pydict \<Rightarrow> error + unit" where
  "debug_title paper = py_slice (dict_get paper ''title'' (JStr ''No title''))"

text \<open>Lines 109-113.\<close>

definition primary_identifier :: "string \<Rightarrow> string \<Rightarrow> string option" where
  "primary_identifier doi openalex_id =
     (if doi \<noteq> [] then Some (''doi:'' @ doi)
      else if openalex_id \<noteq> [] then Some (''openalex:'' @ openalex_id)
      else None)"

text \<open>
  Lines 115-118: \<^verbatim>\<open>paper_groups\<close> is a dictionary from identifier to the list of
  members; a new identifier goes to the end.
\<close>

fun add_to_group ::
  "string \<Rightarrow> nat \<Rightarrow> (string \<times> nat list) list \<Rightarrow> (string \<times> nat list) list" where
  "add_to_group k a [] = [(k, [a])]"
| "add_to_group k a ((k', g) # gs) =
     (if k' = k then (k', g @ [a]) # gs else (k', g) # add_to_group k a gs)"

text \<open>The first loop (lines 101-123).\<close>

fun group_loop ::
  "(nat \<Rightarrow> pydict) \<Rightarrow> nat list \<Rightarrow> (string \<times> nat list) list \<Rightarrow> nat list \<Rightarrow>
     error + ((string \<times> nat list) list \<times> nat list)" where
  "group_loop h [] paper_groups no_identifier_papers = Inr (paper_groups, no_identifier_papers)"
| "group_loop h (paper # papers) paper_groups no_identifier_papers =
     (case read_identifiers (h paper) of
        Inl e \<Rightarrow> Inl e
      | Inr (doi, openalex_id) \<Rightarrow>
          (case debug_title (h paper) of
             Inl e \<Rightarrow> Inl e
           | Inr _ \<Rightarrow>
               (case primary_identifier doi openalex_id of
                  Some identifier \<Rightarrow>
                    group_loop h papers (add_to_group identifier paper paper_groups)
                      no_identifier_papers
                | None \<Rightarrow>
                    group_loop h papers paper_groups (no_identifier_papers @ [paper]))))"

text \<open>Lines 146-147 and the entries of \<^verbatim>\<open>duplicate_sources\<close> (lines 154-160).\<close>

definition decisions_of :: "pydict list \<Rightarrow> jval list" where
  "decisions_of grp = map (\<lambda>p. dict_get p ''decision'' (JStr ''UNKNOWN'')) grp"

definition unique_decisions :: "jval list \<Rightarrow> error + jval set" where
  "unique_decisions decisions =
     (if list_all hashable decisions then Inr (set decisions) else Inl TypeError)"

definition duplicate_source :: "pydict \<Rightarrow> jval" where
  "duplicate_source p =
     JObj [(''source_query_id'', dict_get p ''source_query_id'' JNull),
           (''source_query_description'', dict_get p ''source_query_description'' JNull),
           (''decision'', dict_get p ''decision'' JNull),
           (''confidence'', dict_get p ''confidence'' JNull),
           (''reason'', dict_get p ''reason'' JNull)]"

text \<open>
  The second loop (lines 137-167), with its three accumulators. In the unanimous branch
  the entries are computed from the members first and then stored on the first member
  itself.
\<close>

fun process_loop ::
  "(jval \<Rightarrow> string) \<Rightarrow> (string \<times> nat list) list \<Rightarrow> nat list \<Rightarrow> int \<Rightarrow> int \<Rightarrow> world \<Rightarrow>
     error + (nat list \<times> int \<times> int \<times> world)" where
  "process_loop rp [] unique_papers duplicates_removed conflicts_resolved w =
     Inr (unique_papers, duplicates_removed, conflicts_resolved, w)"
| "process_loop rp ((identifier, grp) # rest) unique_papers duplicates_removed conflicts_resolved w =
     (if length grp = 1 then
        process_loop rp rest (unique_papers @ [hd grp]) duplicates_removed conflicts_resolved w
      else
        let duplicates_removed' = duplicates_removed + (int (length grp) - 1)
        in case unique_decisions (decisions_of (map (heap w) grp)) of
             Inl e \<Rightarrow> Inl e
           | Inr decisions \<Rightarrow>
               if card decisions = 1 then
                 (case grp of
                    [] \<Rightarrow> Inl IndexError
                  | representative_paper # _ \<Rightarrow>
                      let sources = JList (map duplicate_source (map (heap w) grp));
                          w1 = w\<lparr>heap := (heap w)(representative_paper :=
                                   dict_set ''duplicate_sources'' sources
                                     (heap w representative_paper))\<rparr>
                      in process_loop rp rest (unique_papers @ [representative_paper])
                           duplicates_removed' conflicts_resolved w1)
               else
                 (case resolve_screening_conflict rp grp identifier w of
                    Inl e \<Rightarrow> Inl e
                  | Inr (resolved_paper, w1) \<Rightarrow>
                      process_loop rp rest (unique_papers @ [resolved_paper])
                        duplicates_removed' (conflicts_resolved + 1) w1))"

definition deduplicate_with_conflict_resolution ::
  "(jval \<Rightarrow> string) \<Rightarrow> nat list \<Rightarrow> world \<Rightarrow> error + ((nat list \<times> int \<times> int) \<times> world)" where
  "deduplicate_with_conflict_resolution rp papers w =
     (if papers = [] then Inr (([], 0, 0), w)
      else
        case group_loop (heap w) papers [] [] of
          Inl e \<Rightarrow> Inl e
        | Inr (paper_groups, no_identifier_papers) \<Rightarrow>
            (case process_loop rp paper_groups [] 0 0 w of
               Inl e \<Rightarrow> Inl e
             | Inr (unique_papers, duplicates_removed, conflicts_resolved, w1) \<Rightarrow>
                 Inr ((unique_papers @ no_identifier_papers, duplicates_removed,
                       conflicts_resolved), w1)))"

section \<open>Identity groups and the vocabulary of the properties\<close>

text \<open>
  The identity key of a record, and the identity groups of a list of records as the
  specification describes them: one group per key, the keys in the order of their first
  appearance, the members of a group in input order. \<open>group_loop\<close> is shown below to
  compute exactly these groups.
\<close>

definition key_of :: "pydict \<Rightarrow> string option" where
  "key_of paper =
     (case read_identifiers paper of
        Inl _ \<Rightarrow> None
      | Inr (doi, openalex_id) \<Rightarrow> primary_identifier doi openalex_id)"

definition first_occurrences :: "'a list \<Rightarrow> 'a list" where
  "first_occurrences xs = rev (remdups (rev xs))"

definition identity_keys :: "(nat \<Rightarrow> pydict) \<Rightarrow> nat list \<Rightarrow> string list" where
  "identity_keys h papers = first_occurrences (List.map_filter (\<lambda>a. key_of (h a)) papers)"

definition members_of :: "(nat \<Rightarrow> pydict) \<Rightarrow> nat list \<Rightarrow> string \<Rightarrow> nat list" where
  "members_of h papers k = filter (\<lambda>a. key_of (h a) = Some k) papers"

definition identity_groups :: "(nat \<Rightarrow> pydict) \<Rightarrow> nat list \<Rightarrow> (string \<times> nat list) list" where
  "identity_groups h papers = map (\<lambda>k. (k, members_of h papers k)) (identity_keys h papers)"

definition no_identity :: "(nat \<Rightarrow> pydict) \<Rightarrow> nat list \<Rightarrow> nat list" where
  "no_identity h papers = filter (\<lambda>a. key_of (h a) = None) papers"

text \<open>
  The conflict test of line 149 on the members of a group, and its reading in the
  words of the specification: two members whose decisions (with the default of line 146)
  differ.
\<close>

definition unanimous :: "pydict list \<Rightarrow> bool" where
  "unanimous ds = (card (set (decisions_of ds)) = 1)"

definition decisions_differ :: "pydict list \<Rightarrow> bool" where
  "decisions_differ ds =
     (\<exists>x \<in> set (decisions_of ds). \<exists>y \<in> set (decisions_of ds). x \<noteq> y)"

text \<open>The list stored under \<^verbatim>\<open>conflict_resolution.original_decisions\<close>, if any.\<close>

definition original_decisions_of :: "pydict \<Rightarrow> jval option" where
  "original_decisions_of d =
     (case map_of d ''conflict_resolution'' of
        Some (JObj block) \<Rightarrow> map_of block ''original_decisions''
      | _ \<Rightarrow> None)"

text \<open>
  What every option of the resolver guarantees about the record \<open>d\<close> it returns for the
  members \<open>ds\<close>: the block lists one entry per member, in order, and outside the four
  keys the resolver may assign, \<open>d\<close> is the copy of one member.
\<close>

definition resolved_from :: "pydict list \<Rightarrow> pydict \<Rightarrow> bool" where
  "resolved_from ds d \<longleftrightarrow>
     original_decisions_of d = Some (JList (map original_decision ds)) \<and>
     (\<exists>m \<in> set ds. \<forall>k. k \<notin> {''decision'', ''confidence'', ''reason'', ''conflict_resolution''}
        \<longrightarrow> map_of d k = map_of m k)"

text \<open>
  What the second loop emits for one group \<open>g\<close>: \<open>h\<close> is the store when the merge
  starts, \<open>h'\<close> the store when it returns, \<open>r\<close> the reference appended for the group and
  \<open>t\<close> the first free address at the start.
\<close>

definition emitted :: "(nat \<Rightarrow> pydict) \<Rightarrow> nat \<Rightarrow> nat list \<Rightarrow> nat \<Rightarrow> (nat \<Rightarrow> pydict) \<Rightarrow> bool" where
  "emitted h t g r h' \<longleftrightarrow>
     (if length g = 1 then r = hd g \<and> h' r = h r
      else if unanimous (map h g) then
        r = hd g \<and>
        h' r = dict_set ''duplicate_sources'' (JList (map duplicate_source (map h g))) (h r)
      else t \<le> r \<and> resolved_from (map h g) (h' r))"

section \<open>Predicates used in the proofs\<close>

text \<open>What one answered prompt leaves behind.\<close>

definition resolver_post :: "pydict list \<Rightarrow> world \<Rightarrow> nat \<Rightarrow> world \<Rightarrow> bool" where
  "resolver_post ds w r w' \<longleftrightarrow>
     r = top w \<and> top w' = Suc (top w) \<and> clock w' = clock w \<and> ticks w' = Suc (ticks w) \<and>
     stdin w' = stdin w \<and>
     (\<exists>d. heap w' = (heap w)(top w := d) \<and> resolved_from ds d)"

text \<open>
  No reference belongs to two groups of the list.
\<close>

fun disjoint_groups :: "(string \<times> nat list) list \<Rightarrow> bool" where
  "disjoint_groups [] = True"
| "disjoint_groups ((k, g) # gs) =
     ((\<forall>g' \<in> set (map snd gs). set g \<inter> set g' = {}) \<and> disjoint_groups gs)"

text \<open>
  What one group adds to the two counters of the second loop.
\<close>

definition removed_in :: "nat list \<Rightarrow> int" where
  "removed_in g = (if length g = 1 then 0 else int (length g) - 1)"

definition conflicting :: "(nat \<Rightarrow> pydict) \<Rightarrow> nat list \<Rightarrow> bool" where
  "conflicting h g \<longleftrightarrow> length g \<noteq> 1 \<and> \<not> unanimous (map h g)"

text \<open>
  One iteration of the second loop, from \<open>w\<close> to \<open>w1\<close>, emitting \<open>r\<close> for the group
  \<open>g\<close>: only a member of \<open>g\<close> or a fresh address is written, and a conflict consumes
  at least one line of input.
\<close>

definition step_post :: "world \<Rightarrow> nat list \<Rightarrow> nat \<Rightarrow> world \<Rightarrow> bool" where
  "step_post w g r w1 \<longleftrightarrow>
     emitted (heap w) (top w) g r (heap w1) \<and>
     top w \<le> top w1 \<and>
     (\<forall>a. a < top w \<and> a \<notin> set g \<longrightarrow> heap w1 a = heap w a) \<and>
     (r \<in> set g \<or> r = top w \<and> top w1 = Suc (top w)) \<and>
     clock w1 = clock w \<and>
     length (stdin w1) + (if conflicting (heap w) g then 1 else 0) \<le> length (stdin w)"

text \<open>
  All references held by the groups.
\<close>

definition group_refs :: "(string \<times> nat list) list \<Rightarrow> nat set" where
  "group_refs gs = (\<Union>g \<in> set (map snd gs). set g)"

section \<open>Audit triples, identifiers and timestamps\<close>

text \<open>
  The triple (query id, decision, confidence) of a record as \<^verbatim>\<open>.get\<close> reads it, and the
  same triple of an entry of \<^verbatim>\<open>duplicate_sources\<close>.
\<close>

definition member_triple :: "pydict \<Rightarrow> jval \<times> jval \<times> jval" where
  "member_triple p =
     (dict_get p ''source_query_id'' JNull, dict_get p ''decision'' JNull,
      dict_get p ''confidence'' JNull)"

definition source_triple :: "jval \<Rightarrow> jval \<times> jval \<times> jval" where
  "source_triple e = (case e of JObj d \<Rightarrow> member_triple d | _ \<Rightarrow> (JNull, JNull, JNull))"

text \<open>
  The four fields (query description, decision, confidence, reason) of a record as \<^verbatim>\<open>.get\<close>
  reads them, and the same fields of an entry of \<^verbatim>\<open>original_decisions\<close>, which keeps them
  under the keys \<^verbatim>\<open>query\<close>, \<^verbatim>\<open>decision\<close>, \<^verbatim>\<open>confidence\<close> and \<^verbatim>\<open>reason\<close>.
\<close>

definition member_fields :: "pydict \<Rightarrow> jval \<times> jval \<times> jval \<times> jval" where
  "member_fields p =
     (dict_get p ''source_query_description'' JNull, dict_get p ''decision'' JNull,
      dict_get p ''confidence'' JNull, dict_get p ''reason'' JNull)"

definition entry_fields :: "jval \<Rightarrow> jval \<times> jval \<times> jval \<times> jval" where
  "entry_fields e =
     (case e of
        JObj d \<Rightarrow> (dict_get d ''query'' JNull, dict_get d ''decision'' JNull,
                   dict_get d ''confidence'' JNull, dict_get d ''reason'' JNull)
      | _ \<Rightarrow> (JNull, JNull, JNull, JNull))"

text \<open>
  A record has no identifier when its DOI and its OpenAlex id are both absent or blank
  strings.
\<close>

definition blank_field :: "pydict \<Rightarrow> string \<Rightarrow> bool" where
  "blank_field d k =
     (case map_of d k of None \<Rightarrow> True | Some (JStr s) \<Rightarrow> str_strip s = [] | Some _ \<Rightarrow> False)"

definition no_identifier :: "pydict \<Rightarrow> bool" where
  "no_identifier d \<longleftrightarrow> blank_field d ''doi'' \<and> blank_field d ''openalex_id''"

text \<open>
  A record as the screening workflow stores it: the identifiers, the title and the abstract
  are strings when present, the decision is a string, the confidence, when present, is a
  number between 0 and 1, and the authors, when they are a list, are objects whose name,
  if any, is a string. The merge is shown below to return on lists of such records.
\<close>

definition optional_text :: "pydict \<Rightarrow> string \<Rightarrow> bool" where
  "optional_text d k \<longleftrightarrow>
     (case map_of d k of None \<Rightarrow> True | Some (JStr _) \<Rightarrow> True | Some _ \<Rightarrow> False)"

definition screened_record :: "pydict \<Rightarrow> bool" where
  "screened_record d \<longleftrightarrow>
     optional_text d ''doi'' \<and> optional_text d ''openalex_id'' \<and> optional_text d ''title'' \<and>
     optional_text d ''abstract'' \<and>
     (case map_of d ''decision'' of Some (JStr _) \<Rightarrow> True | _ \<Rightarrow> False) \<and>
     (case map_of d ''authors'' of
        Some (JList authors) \<Rightarrow>
          list_all (\<lambda>a. case a of JObj e \<Rightarrow> optional_text e ''name'' | _ \<Rightarrow> True) authors
      | _ \<Rightarrow> True) \<and>
     (case map_of d ''confidence'' of
        None \<Rightarrow> True
      | Some (JNum c) \<Rightarrow> 0 \<le> c \<and> c \<le> 1
      | Some _ \<Rightarrow> False)"

text \<open>
  The method recorded in the \<^verbatim>\<open>conflict_resolution\<close> block, if any.
\<close>

definition method_of :: "pydict \<Rightarrow> jval option" where
  "method_of d =
     (case map_of d ''conflict_resolution'' of
        Some (JObj block) \<Rightarrow> map_of block ''method''
      | _ \<Rightarrow> None)"

text \<open>
  The DOI as line 103 normalizes it: stripped and lowercased.
\<close>

definition normalized_doi :: "string \<Rightarrow> string" where
  "normalized_doi s = str_lower (str_strip s)"

text \<open>
  The normalization in the words of the specification, which also strips a URL scheme
  and host: \<open>spec_normalized_doi\<close> is not part of the code; it is compared with
  \<open>normalized_doi\<close> below.
\<close>

definition drop_scheme :: "string \<Rightarrow> string option" where
  "drop_scheme s =
     (if take 8 s = ''https://'' then Some (drop 8 s)
      else if take 7 s = ''http://'' then Some (drop 7 s)
      else None)"

definition spec_strip_url_prefix :: "string \<Rightarrow> string" where
  "spec_strip_url_prefix s =
     (case drop_scheme s of
        None \<Rightarrow> s
      | Some r \<Rightarrow> drop 1 (dropWhile (\<lambda>c. c \<noteq> CHR ''/'') r))"

definition spec_normalized_doi :: "string \<Rightarrow> string" where
  "spec_normalized_doi s = spec_strip_url_prefix (str_lower (str_strip s))"

text \<open>
  A record with the timestamp of its \<^verbatim>\<open>conflict_resolution\<close> block blanked.
\<close>

definition erase_block :: "jval \<Rightarrow> jval" where
  "erase_block v =
     (case v of
        JObj block \<Rightarrow> JObj (map (\<lambda>(k, x). (k, if k = ''timestamp'' then JNull else x)) block)
      | _ \<Rightarrow> v)"

definition erase_timestamp :: "pydict \<Rightarrow> pydict" where
  "erase_timestamp d =
     map (\<lambda>(k, x). (k, if k = ''conflict_resolution'' then erase_block x else x)) d"

text \<open>
  Two worlds that may differ in their clocks: they agree on the input, the addresses in
  use and every object below \<open>t\<close>, and on every object up to the timestamps.
\<close>

definition same_but_clock :: "nat \<Rightarrow> world \<Rightarrow> world \<Rightarrow> bool" where
  "same_but_clock t w1 w2 \<longleftrightarrow>
     top w1 = top w2 \<and> stdin w1 = stdin w2 \<and> ticks w1 = ticks w2 \<and> t \<le> top w1 \<and>
     (\<forall>a < t. heap w1 a = heap w2 a) \<and>
     (\<forall>a. erase_timestamp (heap w1 a) = erase_timestamp (heap w2 a))"

section \<open>Example records and runs\<close>

text \<open>
  A world whose store holds the given records at the addresses 0, 1, ...; the clock
  shows the same time at every call.
\<close>

definition world_of :: "pydict list \<Rightarrow> string list \<Rightarrow> string \<Rightarrow> world" where
  "world_of ps lines ts =
     \<lparr>heap = (\<lambda>a. if a < length ps then ps ! a else []), top = length ps, stdin = lines,
      clock = (\<lambda>_. ts), ticks = 0\<rparr>"

text \<open>
  A stand-in for the text of the list of decisions, for the examples only.
\<close>

definition decisions_text :: "jval \<Rightarrow> string" where
  "decisions_text v = ''[...]''"

text \<open>
  Observations of what a call of the merge returned: the records behind the returned
  references, the two counters, the references, and the store.
\<close>

definition merged_papers :: "error + ((nat list \<times> int \<times> int) \<times> world) \<Rightarrow> pydict list" where
  "merged_papers res = (case res of Inl _ \<Rightarrow> [] | Inr ((out, _, _), w') \<Rightarrow> map (heap w') out)"

definition merge_summary :: "error + ((nat list \<times> int \<times> int) \<times> world) \<Rightarrow> (int \<times> int) option" where
  "merge_summary res = (case res of Inl _ \<Rightarrow> None | Inr ((_, dr, cr), _) \<Rightarrow> Some (dr, cr))"

text \<open>
  Three records of one paper with the same decision, two records of another paper with
  different decisions, and further records used by the examples.
\<close>

definition paper_x1 :: pydict where
  "paper_x1 = [(''title'', JStr ''X''), (''doi'', JStr ''10.1/x''), (''decision'', JStr ''INCLUDE''),
     (''confidence'', JNum 0.9), (''reason'', JStr ''r1''), (''source_query_id'', JNum 1)]"

definition paper_x2 :: pydict where
  "paper_x2 = [(''title'', JStr ''X''), (''doi'', JStr ''10.1/x''), (''decision'', JStr ''INCLUDE''),
     (''confidence'', JNum 0.6), (''reason'', JStr ''r2''), (''source_query_id'', JNum 2)]"

definition paper_x3 :: pydict where
  "paper_x3 = [(''title'', JStr ''X''), (''doi'', JStr ''10.1/x''), (''decision'', JStr ''INCLUDE''),
     (''confidence'', JNum 0.95), (''reason'', JStr ''r3''), (''source_query_id'', JNum 3)]"

definition paper_y1 :: pydict where
  "paper_y1 = [(''title'', JStr ''Y''), (''doi'', JStr ''10.1/y''), (''decision'', JStr ''INCLUDE''),
     (''confidence'', JNum 0.9), (''reason'', JStr ''r1''), (''source_query_id'', JNum 1)]"

definition paper_y2 :: pydict where
  "paper_y2 = [(''title'', JStr ''Y''), (''doi'', JStr ''10.1/y''), (''decision'', JStr ''EXCLUDE''),
     (''confidence'', JNum 0.8), (''reason'', JStr ''r2''), (''source_query_id'', JNum 2)]"

definition paper_url :: pydict where
  "paper_url = [(''title'', JStr ''X''), (''doi'', JStr ''https://doi.org/10.1/x''),
     (''decision'', JStr ''INCLUDE''), (''confidence'', JNum 0.9)]"

definition paper_bare :: pydict where
  "paper_bare = [(''title'', JStr ''X''), (''doi'', JStr ''10.1/x''),
     (''decision'', JStr ''INCLUDE''), (''confidence'', JNum 0.9)]"

definition paper_plain :: pydict where
  "paper_plain = [(''title'', JStr ''N''), (''decision'', JStr ''INCLUDE''), (''confidence'', JNum 0.7)]"

definition paper_z :: pydict where
  "paper_z = [(''title'', JStr ''Z''), (''doi'', JStr ''10.1/z''), (''decision'', JStr ''EXCLUDE''),
     (''confidence'', JNum 0.7)]"

definition paper_undecided :: pydict where
  "paper_undecided = [(''title'', JStr ''Y''), (''doi'', JStr ''10.1/y''), (''confidence'', JNum 0.9),
     (''reason'', JStr ''r0''), (''source_query_id'', JNum 3)]"

definition merged_refs :: "error + ((nat list \<times> int \<times> int) \<times> world) \<Rightarrow> nat list" where
  "merged_refs res = (case res of Inl _ \<Rightarrow> [] | Inr ((out, _, _), _) \<Rightarrow> out)"

definition store_after :: "error + ('a \<times> world) \<Rightarrow> nat \<Rightarrow> pydict" where
  "store_after res = (case res of Inl _ \<Rightarrow> (\<lambda>_. []) | Inr (_, w') \<Rightarrow> heap w')"

text \<open>
  The reference returned by the resolver.
\<close>

definition resolved_ref :: "error + (nat \<times> world) \<Rightarrow> nat" where
  "resolved_ref res = (case res of Inl _ \<Rightarrow> 0 | Inr (r, _) \<Rightarrow> r)"

definition paper_upper :: pydict where
  "paper_upper = [(''title'', JStr ''X''), (''doi'', JStr '' 10.1/X ''),
     (''decision'', JStr ''EXCLUDE''), (''confidence'', JNum 0.4)]"

definition world_a :: world where
  "world_a = world_of [paper_x1, paper_x2, paper_x3] [] ''2025-01-11T10:00:00''"

definition world_b :: world where
  "world_b = world_of [paper_y1, paper_y2, paper_plain] [''3''] ''2025-01-11T10:00:00''"

definition world_c :: world where
  "world_c = world_of [paper_plain, paper_z, paper_plain] [] ''2025-01-11T10:00:00''"

definition world_d :: world where
  "world_d = world_of [paper_upper, paper_bare, paper_z] [] ''2025-01-11T10:00:00''"

definition world_e :: world where
  "world_e = world_of [paper_y1, paper_y2, paper_z] [] ''2025-01-11T10:00:00''"

definition world_f :: "string \<Rightarrow> world" where
  "world_f answer = world_of [paper_y1, paper_y2] [answer] ''2025-01-11T10:00:00''"

definition paper_null_confidence :: pydict where
  "paper_null_confidence = [(''title'', JStr ''Y''), (''doi'', JStr ''10.1/y''),
     (''decision'', JStr ''EXCLUDE''), (''confidence'', JNull), (''reason'', JNull),
     (''source_query_id'', JNum 3)]"

text \<open>
  Two records of one paper with different decisions and two unanimous records of another,
  all with the description of their query; a record that ties with the third record of
  the first paper on the confidence but not on the decision.
\<close>

definition paper_v1 :: pydict where
  "paper_v1 = [(''title'', JStr ''V''), (''doi'', JStr ''10.1/v''), (''decision'', JStr ''EXCLUDE''),
     (''confidence'', JNum 0.5), (''reason'', JStr ''off topic''), (''source_query_id'', JNum 1),
     (''source_query_description'', JStr ''query one'')]"

definition paper_v2 :: pydict where
  "paper_v2 = [(''title'', JStr ''V''), (''doi'', JStr ''10.1/v''), (''decision'', JStr ''INCLUDE''),
     (''confidence'', JNum 0.75), (''reason'', JStr ''on topic''), (''source_query_id'', JNum 2),
     (''source_query_description'', JStr ''query two'')]"

definition paper_u1 :: pydict where
  "paper_u1 = [(''title'', JStr ''U''), (''doi'', JStr ''10.1/u''), (''decision'', JStr ''INCLUDE''),
     (''confidence'', JNum 0.5), (''reason'', JStr ''relevant''), (''source_query_id'', JNum 1),
     (''source_query_description'', JStr ''query one'')]"

definition paper_u2 :: pydict where
  "paper_u2 = [(''title'', JStr ''U''), (''doi'', JStr ''10.1/u''), (''decision'', JStr ''INCLUDE''),
     (''confidence'', JNum 0.25), (''reason'', JStr ''survey''), (''source_query_id'', JNum 2),
     (''source_query_description'', JStr ''query two'')]"

definition paper_t :: pydict where
  "paper_t = [(''title'', JStr ''X''), (''doi'', JStr ''10.1/x''), (''decision'', JStr ''EXCLUDE''),
     (''confidence'', JNum 0.95), (''reason'', JStr ''r4''), (''source_query_id'', JNum 4)]"

text \<open>
  Further runs: a unanimous and a conflicting group interleaved, three members with the
  highest confidence on the second and the third, the records of the first examples in
  another order, and two conflicting groups.
\<close>

definition world_g :: "string list \<Rightarrow> world" where
  "world_g answers = world_of [paper_u1, paper_v1, paper_u2, paper_v2] answers ''2025-01-11T10:00:00''"

definition world_h :: world where
  "world_h = world_of [paper_x2, paper_t, paper_x3] [''5'', ''what'', '' 3 ''] ''2025-01-11T10:00:00''"

definition world_k :: world where
  "world_k = world_of [paper_x1, paper_y1, paper_x2, paper_plain, paper_y2, paper_x3] [''3'']
     ''2025-01-11T10:00:00''"

definition world_m :: "string list \<Rightarrow> world" where
  "world_m answers = world_of [paper_y1, paper_v1, paper_y2, paper_v2] answers ''2025-01-11T10:00:00''"

section \<open>The first loop computes the identity groups\<close>

lemma first_occurrences_snoc:
  "first_occurrences (xs @ [x]) =
     (if x \<in> set xs then first_occurrences xs else first_occurrences xs @ [x])"
  by (simp add: first_occurrences_def)

lemma set_first_occurrences [simp]: "set (first_occurrences xs) = set xs"
  by (simp add: first_occurrences_def)

lemma distinct_first_occurrences [simp]: "distinct (first_occurrences xs)"
  by (simp add: first_occurrences_def)

lemma first_occurrences_Nil [simp]: "first_occurrences [] = []"
  by (simp add: first_occurrences_def)

lemma add_to_group_map:
  "distinct ks \<Longrightarrow>
   add_to_group k a (map (\<lambda>k'. (k', f k')) ks) =
     (if k \<in> set ks then map (\<lambda>k'. (k', if k' = k then f k' @ [a] else f k')) ks
      else map (\<lambda>k'. (k', f k')) ks @ [(k, [a])])"
  by (induction ks) auto

lemma set_identity_keys: "set (identity_keys h papers) = {k. \<exists>a \<in> set papers. key_of (h a) = Some k}"
proof -
  have "\<And>k a. a \<in> set papers \<Longrightarrow> key_of (h a) = Some k \<Longrightarrow>
          \<exists>b. b \<in> set papers \<and> (\<exists>y. key_of (h b) = Some y) \<and> k = the (key_of (h b))"
  proof -
    fix k a assume "a \<in> set papers" "key_of (h a) = Some k"
    then have "a \<in> set papers \<and> (\<exists>y. key_of (h a) = Some y) \<and> k = the (key_of (h a))" by simp
    then show "\<exists>b. b \<in> set papers \<and> (\<exists>y. key_of (h b) = Some y) \<and> k = the (key_of (h b))" ..
  qed
  then show ?thesis
    by (auto simp: identity_keys_def map_filter_def image_iff)
qed

lemma identity_keys_snoc:
  "identity_keys h (pre @ [a]) =
     (case key_of (h a) of
        None \<Rightarrow> identity_keys h pre
      | Some k \<Rightarrow> if k \<in> set (identity_keys h pre) then identity_keys h pre
                  else identity_keys h pre @ [k])"
  by (auto simp: identity_keys_def map_filter_def first_occurrences_snoc split: option.splits)

lemma members_of_snoc:
  "members_of h (pre @ [a]) k = members_of h pre k @ (if key_of (h a) = Some k then [a] else [])"
  by (simp add: members_of_def)

lemma members_of_empty: "k \<notin> set (identity_keys h pre) \<Longrightarrow> members_of h pre k = []"
  by (auto simp: set_identity_keys members_of_def filter_empty_conv)

lemma identity_groups_snoc:
  "identity_groups h (pre @ [a]) =
     (case key_of (h a) of
        None \<Rightarrow> identity_groups h pre
      | Some k \<Rightarrow> add_to_group k a (identity_groups h pre))"
proof (cases "key_of (h a)")
  case None
  then show ?thesis
    by (simp add: identity_groups_def identity_keys_snoc members_of_snoc)
next
  case (Some k)
  have d: "distinct (identity_keys h pre)"
    by (simp add: identity_keys_def)
  show ?thesis
  proof (cases "k \<in> set (identity_keys h pre)")
    case True
    with Some d show ?thesis
      by (simp add: identity_groups_def identity_keys_snoc members_of_snoc add_to_group_map)
  next
    case False
    with Some d show ?thesis
      by (auto simp: identity_groups_def identity_keys_snoc members_of_snoc add_to_group_map
          members_of_empty)
  qed
qed

lemma no_identity_snoc:
  "no_identity h (pre @ [a]) = no_identity h pre @ (if key_of (h a) = None then [a] else [])"
  by (simp add: no_identity_def)

lemma group_loop_from:
  "group_loop h as (identity_groups h pre) (no_identity h pre) = Inr (pg, noid) \<Longrightarrow>
   pg = identity_groups h (pre @ as) \<and> noid = no_identity h (pre @ as)"
proof (induction as arbitrary: pre)
  case Nil
  then show ?case by simp
next
  case (Cons a as)
  from Cons.prems obtain doi oid where ids: "read_identifiers (h a) = Inr (doi, oid)"
    by (auto split: sum.splits)
  have key: "key_of (h a) = primary_identifier doi oid"
    by (simp add: key_of_def ids)
  show ?case
  proof (cases "primary_identifier doi oid")
    case None
    with Cons.prems ids key
    have "group_loop h as (identity_groups h (pre @ [a])) (no_identity h (pre @ [a])) = Inr (pg, noid)"
      by (auto simp: identity_groups_snoc no_identity_snoc split: sum.splits)
    from Cons.IH [OF this] show ?thesis by simp
  next
    case (Some k)
    with Cons.prems ids key
    have "group_loop h as (identity_groups h (pre @ [a])) (no_identity h (pre @ [a])) = Inr (pg, noid)"
      by (auto simp: identity_groups_snoc no_identity_snoc split: sum.splits)
    from Cons.IH [OF this] show ?thesis by simp
  qed
qed

text \<open>
  The first loop returns the identity groups (keys in order of first appearance, members
  in input order) and the records without identifier in input order.
\<close>

lemma group_loop_identity_groups:
  "group_loop h papers [] [] = Inr (pg, noid) \<Longrightarrow>
   pg = identity_groups h papers \<and> noid = no_identity h papers"
  using group_loop_from [of h papers "[]" pg noid]
  by (simp add: identity_groups_def identity_keys_def no_identity_def map_filter_def)

section \<open>What the resolver returns\<close>

lemma map_of_dict_set: "map_of (dict_set k v d) = (map_of d)(k \<mapsto> v)"
  by (induction d) (auto simp: fun_eq_iff)

lemma map_of_dict_set_other: "k' \<noteq> k \<Longrightarrow> map_of (dict_set k v d) k' = map_of d k'"
  by (simp add: map_of_dict_set)

lemma map_of_dict_set_same: "map_of (dict_set k v d) k = Some v"
  by (simp add: map_of_dict_set)

lemma max_by_in: "max_by key b xs \<in> set (b # xs)"
  by (induction xs arbitrary: b) (auto split: if_splits)

lemma original_decisions_of_block:
  "''original_decisions'' \<notin> fst ` set selected \<Longrightarrow>
   original_decisions_of (dict_set ''conflict_resolution'' (conflict_resolution m ts selected ds) d) =
     Some (JList (map original_decision ds))"
proof -
  assume "''original_decisions'' \<notin> fst ` set selected"
  then have "map_of selected ''original_decisions'' = None"
    by (simp add: map_of_eq_None_iff)
  then show ?thesis
    by (simp add: original_decisions_of_def map_of_dict_set conflict_resolution_def map_add_def)
qed

lemma manual_choice_post:
  assumes "manual_choice rp decision method ds w = Inr (r, w')"
  shows "resolver_post ds w r w'"
proof -
  from assms obtain first rest where ds: "ds = first # rest"
    by (cases ds) (auto simp: manual_choice_def)
  let ?d = "dict_set ''conflict_resolution'' (conflict_resolution method (clock w (ticks w)) [] ds)
      (dict_set ''reason'' (JStr (''Manual conflict resolution: User chose to '' @ decision @
                       '' (had conflicts: '' @
                       rp (JList (map (\<lambda>p. dict_get p ''decision'' JNull) ds)) @ '')''))
         (dict_set ''confidence'' (JNum 1) (dict_set ''decision'' (JStr decision) first)))"
  have res: "r = top w" "w' = w\<lparr>ticks := Suc (ticks w), heap := (heap w)(top w := ?d), top := Suc (top w)\<rparr>"
    using assms by (auto simp: manual_choice_def ds now_isoformat_def alloc_def)
  have "original_decisions_of ?d = Some (JList (map original_decision ds))"
    by (rule original_decisions_of_block) simp
  moreover have "\<forall>k. k \<notin> {''decision'', ''confidence'', ''reason'', ''conflict_resolution''}
        \<longrightarrow> map_of ?d k = map_of first k"
    by (simp add: map_of_dict_set)
  ultimately have "resolved_from ds ?d"
    unfolding resolved_from_def using ds by auto
  with res show ?thesis
    unfolding resolver_post_def by auto
qed

lemma highest_confidence_post:
  assumes "highest_confidence ds w = Inr (r, w')"
  shows "resolver_post ds w r w'"
proof -
  from assms obtain first rest where ds: "ds = first # rest"
    by (cases ds) (auto simp: highest_confidence_def)
  let ?m = "max_by confidence_key first rest"
  let ?d = "dict_set ''conflict_resolution''
                    (conflict_resolution ''highest_confidence'' (clock w (ticks w))
                       [(''selected_confidence'', dict_get ?m ''confidence'' JNull),
                        (''selected_from_query'', dict_get ?m ''source_query_description'' JNull)]
                       ds) ?m"
  have res: "r = top w" "w' = w\<lparr>ticks := Suc (ticks w), heap := (heap w)(top w := ?d), top := Suc (top w)\<rparr>"
    using assms by (auto simp: highest_confidence_def ds now_isoformat_def alloc_def Let_def
        split: if_splits option.splits)
  have "original_decisions_of ?d = Some (JList (map original_decision ds))"
    by (rule original_decisions_of_block) simp
  moreover have "\<forall>k. k \<notin> {''decision'', ''confidence'', ''reason'', ''conflict_resolution''}
        \<longrightarrow> map_of ?d k = map_of ?m k"
    by (simp add: map_of_dict_set)
  moreover have "?m \<in> set ds"
    unfolding ds by (rule max_by_in)
  ultimately have "resolved_from ds ?d"
    unfolding resolved_from_def by blast
  with res show ?thesis
    unfolding resolver_post_def by auto
qed

lemma most_recent_post:
  assumes "most_recent ds w = Inr (r, w')"
  shows "resolver_post ds w r w'"
proof -
  from assms have ne: "ds \<noteq> []"
    by (cases ds) (auto simp: most_recent_def)
  let ?m = "last ds"
  let ?d = "dict_set ''conflict_resolution''
                  (conflict_resolution ''most_recent'' (clock w (ticks w))
                     [(''selected_from_query'', dict_get ?m ''source_query_description'' JNull)]
                     ds) ?m"
  have res: "r = top w" "w' = w\<lparr>ticks := Suc (ticks w), heap := (heap w)(top w := ?d), top := Suc (top w)\<rparr>"
    using assms ne by (auto simp: most_recent_def list.case_eq_if now_isoformat_def alloc_def Let_def
        split: if_splits option.splits)
  have "original_decisions_of ?d = Some (JList (map original_decision ds))"
    by (rule original_decisions_of_block) simp
  moreover have "\<forall>k. k \<notin> {''decision'', ''confidence'', ''reason'', ''conflict_resolution''}
        \<longrightarrow> map_of ?d k = map_of ?m k"
    by (simp add: map_of_dict_set)
  moreover have "?m \<in> set ds"
    using ne by simp
  ultimately have "resolved_from ds ?d"
    unfolding resolved_from_def by blast
  with res show ?thesis
    unfolding resolver_post_def by auto
qed

text \<open>
  The prompt loop: the answer that resolves the conflict is preceded by lines that were
  read and did not resolve it.
\<close>

lemma prompt_loop_post:
  "prompt_loop rp ds lines w = Inr (r, w') \<Longrightarrow>
   \<exists>used. used \<noteq> [] \<and> lines = used @ stdin w' \<and>
     resolver_post ds (w\<lparr>stdin := stdin w'\<rparr>) r w'"
proof (induction lines arbitrary: w)
  case Nil
  then show ?case by simp
next
  case (Cons line lines)
  let ?w1 = "w\<lparr>stdin := lines\<rparr>"
  let ?c = "str_strip line"
  consider (direct) "manual_choice rp ''INCLUDE'' ''manual_include'' ds ?w1 = Inr (r, w')
        \<or> manual_choice rp ''EXCLUDE'' ''manual_exclude'' ds ?w1 = Inr (r, w')
        \<or> highest_confidence ds ?w1 = Inr (r, w') \<or> most_recent ds ?w1 = Inr (r, w')"
    | (again) "prompt_loop rp ds lines ?w1 = Inr (r, w')"
    using Cons.prems by (auto simp: Let_def split: if_splits sum.splits)
  then show ?case
  proof cases
    case direct
    then have post: "resolver_post ds ?w1 r w'"
      using manual_choice_post highest_confidence_post most_recent_post by blast
    then have "stdin w' = lines"
      by (simp add: resolver_post_def)
    with post show ?thesis
      by (intro exI [of _ "[line]"]) simp
  next
    case again
    from Cons.IH [OF this] obtain used where
      "used \<noteq> []" "lines = used @ stdin w'" "resolver_post ds (?w1\<lparr>stdin := stdin w'\<rparr>) r w'"
      by blast
    then show ?thesis
      by (intro exI [of _ "line # used"]) simp
  qed
qed

lemma resolve_screening_conflict_post:
  assumes "resolve_screening_conflict rp g identifier w = Inr (r, w')"
  shows "\<exists>used. used \<noteq> [] \<and> stdin w = used @ stdin w' \<and>
     resolver_post (map (heap w) g) (w\<lparr>stdin := stdin w'\<rparr>) r w'"
  using assms prompt_loop_post [of rp "map (heap w) g" "stdin w" w r w']
  by (auto simp: resolve_screening_conflict_def Let_def split: sum.splits)

text \<open>
  The prompt loop takes its lines from its argument: the input recorded in the world it
  starts from is overwritten at the first read. Lines that are none of the answers 1 to 4
  are read and passed over.
\<close>

lemma prompt_loop_stdin: "prompt_loop rp ds lines (w\<lparr>stdin := a\<rparr>) = prompt_loop rp ds lines w"
  by (cases lines) (simp_all add: Let_def)

lemma prompt_loop_skip:
  assumes "\<forall>l \<in> set skipped. str_strip l \<notin> {''1'', ''2'', ''3'', ''4''}"
    and "prompt_loop rp ds (skipped @ lines) w = Inr res"
  shows "prompt_loop rp ds lines w = Inr res"
  using assms
proof (induction skipped arbitrary: w)
  case Nil
  then show ?case by simp
next
  case (Cons l ls)
  from Cons.prems have "prompt_loop rp ds (ls @ lines) (w\<lparr>stdin := ls @ lines\<rparr>) = Inr res"
    by (auto simp: Let_def split: if_splits sum.splits)
  then have "prompt_loop rp ds (ls @ lines) w = Inr res"
    by (simp only: prompt_loop_stdin)
  with Cons show ?case by simp
qed

text \<open>
  The three kinds of resolution do not read the input: started with another input left,
  they return the same reference and the same world, with that input left.
\<close>

lemma manual_choice_stdin:
  "manual_choice rp decision method ds (w\<lparr>stdin := a\<rparr>) = Inr (r, w') \<Longrightarrow>
   stdin w' = a \<and> manual_choice rp decision method ds (w\<lparr>stdin := b\<rparr>) = Inr (r, w'\<lparr>stdin := b\<rparr>)"
  by (cases ds) (auto simp: manual_choice_def now_isoformat_def alloc_def)

lemma highest_confidence_stdin:
  "highest_confidence ds (w\<lparr>stdin := a\<rparr>) = Inr (r, w') \<Longrightarrow>
   stdin w' = a \<and> highest_confidence ds (w\<lparr>stdin := b\<rparr>) = Inr (r, w'\<lparr>stdin := b\<rparr>)"
  by (cases ds)
    (auto simp: highest_confidence_def now_isoformat_def alloc_def Let_def
      split: if_splits option.splits)

lemma most_recent_stdin:
  "most_recent ds (w\<lparr>stdin := a\<rparr>) = Inr (r, w') \<Longrightarrow>
   stdin w' = a \<and> most_recent ds (w\<lparr>stdin := b\<rparr>) = Inr (r, w'\<lparr>stdin := b\<rparr>)"
  by (cases ds)
    (auto simp: most_recent_def now_isoformat_def alloc_def Let_def
      split: if_splits option.splits)

text \<open>
  The prompt loop on a prefix of the input: either the answer that resolved the conflict
  lies in the prefix, and the run is the same, or the prefix runs out.
\<close>

lemma prompt_loop_prefix:
  "prompt_loop rp ds (xs @ ys) w = Inr (r, w') \<Longrightarrow>
   (\<exists>zs. stdin w' = zs @ ys \<and> prompt_loop rp ds xs w = Inr (r, w'\<lparr>stdin := zs\<rparr>)) \<or>
   prompt_loop rp ds xs w = Inl EOFError"
proof (induction xs arbitrary: w)
  case Nil
  then show ?case by simp
next
  case (Cons l ls)
  let ?long = "w\<lparr>stdin := ls @ ys\<rparr>"
  let ?short = "w\<lparr>stdin := ls\<rparr>"
  consider (direct) f where
      "f = manual_choice rp ''INCLUDE'' ''manual_include'' ds \<or>
       f = manual_choice rp ''EXCLUDE'' ''manual_exclude'' ds \<or>
       f = highest_confidence ds \<or> f = most_recent ds"
      "f ?long = Inr (r, w')" "prompt_loop rp ds (l # ls) w = f ?short"
    | (again) "prompt_loop rp ds (ls @ ys) ?long = Inr (r, w')"
        "prompt_loop rp ds (l # ls) w = prompt_loop rp ds ls ?short"
    using Cons.prems by (auto simp: Let_def split: if_splits sum.splits)
  then show ?case
  proof cases
    case direct
    note swap = manual_choice_stdin [where b = ls] highest_confidence_stdin [where b = ls]
      most_recent_stdin [where b = ls]
    from direct(1,2) have "stdin w' = ls @ ys \<and> f ?short = Inr (r, w'\<lparr>stdin := ls\<rparr>)"
      by (auto dest: swap)
    with direct(3) show ?thesis
      by auto
  next
    case again
    from again(1) have "prompt_loop rp ds (ls @ ys) w = Inr (r, w')"
      by (simp only: prompt_loop_stdin)
    from Cons.IH [OF this] again(2) show ?thesis
      by (simp only: prompt_loop_stdin)
  qed
qed

section \<open>The second loop\<close>

lemma process_loop_step:
  assumes "process_loop rp ((k, g) # rest) up dr cr w = Inr res"
  shows "\<exists>r w1. process_loop rp rest (up @ [r]) (dr + removed_in g)
                  (cr + (if conflicting (heap w) g then 1 else 0)) w1 = Inr res \<and>
                step_post w g r w1"
proof (cases "length g = 1")
  case True
  then have "hd g \<in> set g"
    by (cases g) auto
  with True assms show ?thesis
    by (intro exI [of _ "hd g"] exI [of _ w])
      (simp add: removed_in_def conflicting_def step_post_def emitted_def)
next
  case False
  from assms False obtain decisions where
    ud: "unique_decisions (decisions_of (map (heap w) g)) = Inr decisions"
    by (auto simp: Let_def split: sum.splits)
  then have dec: "decisions = set (decisions_of (map (heap w) g))"
    by (auto simp: unique_decisions_def split: if_splits)
  show ?thesis
  proof (cases "card decisions = 1")
    case True
    then have un: "unanimous (map (heap w) g)"
      by (simp add: unanimous_def dec)
    from True dec have "g \<noteq> []"
      by (auto simp: decisions_of_def)
    then obtain rep tl where g: "g = rep # tl"
      by (cases g) auto
    let ?w1 = "w\<lparr>heap := (heap w)(rep := dict_set ''duplicate_sources''
        (JList (map duplicate_source (map (heap w) g))) (heap w rep))\<rparr>"
    have run: "process_loop rp rest (up @ [rep]) (dr + removed_in g) cr ?w1 = Inr res"
      using assms False ud True g by (simp add: Let_def removed_in_def)
    have "step_post w g rep ?w1"
      using False un g by (auto simp: step_post_def emitted_def conflicting_def)
    with run un False show ?thesis
      by (intro exI [of _ rep] exI [of _ ?w1]) (simp add: conflicting_def)
  next
    case c: False
    then have nun: "\<not> unanimous (map (heap w) g)"
      by (simp add: unanimous_def dec)
    from assms False ud c obtain r w1 where
      res: "resolve_screening_conflict rp g k w = Inr (r, w1)" and
      run: "process_loop rp rest (up @ [r]) (dr + removed_in g) (cr + 1) w1 = Inr res"
      by (auto simp: Let_def removed_in_def split: sum.splits)
    from resolve_screening_conflict_post [OF res] obtain used where
      used: "used \<noteq> []" "stdin w = used @ stdin w1" and
      post: "resolver_post (map (heap w) g) (w\<lparr>stdin := stdin w1\<rparr>) r w1"
      by blast
    from post obtain d where
      d: "r = top w" "top w1 = Suc (top w)" "clock w1 = clock w"
         "heap w1 = (heap w)(top w := d)" "resolved_from (map (heap w) g) d"
      by (auto simp: resolver_post_def)
    from used have "length (stdin w1) + 1 \<le> length (stdin w)"
      by (cases used) auto
    with d False nun have "step_post w g r w1"
      by (auto simp: step_post_def emitted_def conflicting_def)
    with run False nun show ?thesis
      by (intro exI [of _ r] exI [of _ w1]) (simp add: conflicting_def)
  qed
qed

lemma emitted_later:
  assumes "emitted h t g r h1" and "h' r = h1 r"
  shows "emitted h t g r h'"
  using assms by (auto simp: emitted_def split: if_splits)

lemma unanimous_nonempty: "unanimous ds \<Longrightarrow> ds \<noteq> []"
  by (auto simp: unanimous_def decisions_of_def)

lemma emitted_earlier:
  assumes "emitted h1 t1 g r h'" and "\<forall>a \<in> set g. h1 a = h a" and "t \<le> t1"
  shows "emitted h t g r h'"
proof -
  from assms(2) have m: "map h1 g = map h g"
    by simp
  have hd: "g \<noteq> [] \<Longrightarrow> h1 (hd g) = h (hd g)"
    using assms(2) by simp
  show ?thesis
  proof (cases "length g = 1")
    case True
    then have "g \<noteq> []" by auto
    with True assms(1) hd show ?thesis
      by (auto simp: emitted_def)
  next
    case False
    show ?thesis
    proof (cases "unanimous (map h g)")
      case True
      then have "g \<noteq> []" using unanimous_nonempty by fastforce
      with True False assms(1) hd m show ?thesis
        by (auto simp: emitted_def)
    next
      case nu: False
      with False assms(1,3) m show ?thesis
        by (simp add: emitted_def)
    qed
  qed
qed

lemma list_all2_mono_set:
  "list_all2 P xs ys \<Longrightarrow> (\<And>x y. x \<in> set xs \<Longrightarrow> P x y \<Longrightarrow> Q x y) \<Longrightarrow> list_all2 Q xs ys"
  by (induction rule: list_all2_induct) auto

lemma emitted_all_earlier:
  assumes outs: "list_all2 (\<lambda>g r. emitted (heap w1) (top w1) g r (heap w')) (map snd rest) outs"
   and same: "\<And>g' a. g' \<in> set (map snd rest) \<Longrightarrow> a \<in> set g' \<Longrightarrow> heap w1 a = heap w a"
   and mono: "top w \<le> top w1"
 shows "list_all2 (\<lambda>g r. emitted (heap w) (top w) g r (heap w')) (map snd rest) outs"
proof -
  have step: "\<And>g' r'. g' \<in> set (map snd rest) \<Longrightarrow> emitted (heap w1) (top w1) g' r' (heap w') \<Longrightarrow>
     emitted (heap w) (top w) g' r' (heap w')"
  proof -
    fix g' r' assume a: "g' \<in> set (map snd rest)" and b: "emitted (heap w1) (top w1) g' r' (heap w')"
    have c: "\<forall>a \<in> set g'. heap w1 a = heap w a"
      using same [OF a] by blast
    show "emitted (heap w) (top w) g' r' (heap w')"
      using b c mono by (rule emitted_earlier)
  qed
  show ?thesis
    using outs step by (rule list_all2_mono_set)
qed

text \<open>
  The invariant of the second loop, over groups that share no reference and lie below
  the first free address.
\<close>

lemma process_loop_post:
  assumes "process_loop rp gs up dr cr w = Inr (up', dr', cr', w')"
    and "disjoint_groups gs"
    and "\<forall>a \<in> group_refs gs. a < top w"
  shows "(\<exists>outs. up' = up @ outs \<and>
            list_all2 (\<lambda>g r. emitted (heap w) (top w) g r (heap w')) (map snd gs) outs) \<and>
         dr' = dr + sum_list (map removed_in (map snd gs)) \<and>
         cr' = cr + int (length (filter (conflicting (heap w)) (map snd gs))) \<and>
         top w \<le> top w' \<and>
         (\<forall>a. a < top w \<and> a \<notin> group_refs gs \<longrightarrow> heap w' a = heap w a) \<and>
         clock w' = clock w \<and>
         int (length (stdin w')) + (cr' - cr) \<le> int (length (stdin w))"
  using assms
proof (induction gs arbitrary: up dr cr w)
  case Nil
  then show ?case by simp
next
  case (Cons kg rest)
  obtain k g where kg: "kg = (k, g)" by (cases kg)
  let ?c = "if conflicting (heap w) g then 1 else (0::int)"
  from process_loop_step [OF Cons.prems(1) [unfolded kg]] obtain r w1 where
    run: "process_loop rp rest (up @ [r]) (dr + removed_in g) (cr + ?c) w1 = Inr (up', dr', cr', w')"
    and step: "step_post w g r w1"
    by blast
  have dis: "disjoint_groups rest" and sep: "\<forall>g' \<in> set (map snd rest). set g \<inter> set g' = {}"
    using Cons.prems(2) by (simp_all add: kg)
  have below: "\<forall>a \<in> set g. a < top w" "\<forall>a \<in> group_refs rest. a < top w"
    using Cons.prems(3) by (auto simp: kg group_refs_def)
  from step have mono: "top w \<le> top w1"
    and frame1: "\<And>a. a < top w \<Longrightarrow> a \<notin> set g \<Longrightarrow> heap w1 a = heap w a"
    and em1: "emitted (heap w) (top w) g r (heap w1)"
    and rr: "r \<in> set g \<or> r = top w \<and> top w1 = Suc (top w)"
    and clk: "clock w1 = clock w"
    and inp: "length (stdin w1) + (if conflicting (heap w) g then 1 else 0) \<le> length (stdin w)"
    by (auto simp: step_post_def)
  have below1: "\<forall>a \<in> group_refs rest. a < top w1"
    using below(2) mono by auto
  note ih = Cons.IH [OF run dis below1]
  from ih obtain outs where
    outs: "up' = (up @ [r]) @ outs"
      "list_all2 (\<lambda>g r. emitted (heap w1) (top w1) g r (heap w')) (map snd rest) outs"
    by blast
  from ih have dr': "dr' = dr + removed_in g + sum_list (map removed_in (map snd rest))"
    by simp
  from ih have cr': "cr' = cr + ?c + int (length (filter (conflicting (heap w1)) (map snd rest)))"
    by simp
  from ih have mono': "top w1 \<le> top w'"
    by simp
  from ih have frame': "\<And>a. a < top w1 \<Longrightarrow> a \<notin> group_refs rest \<Longrightarrow> heap w' a = heap w1 a"
    by blast
  from ih have clk': "clock w' = clock w1"
    by simp
  from ih have inp': "int (length (stdin w')) + (cr' - (cr + ?c)) \<le> int (length (stdin w1))"
    by simp
  have same: "\<And>g' a. g' \<in> set (map snd rest) \<Longrightarrow> a \<in> set g' \<Longrightarrow> heap w1 a = heap w a"
  proof -
    fix g' a assume g': "g' \<in> set (map snd rest)" and a: "a \<in> set g'"
    then have "a \<in> group_refs rest" by (auto simp: group_refs_def)
    with below(2) have "a < top w" by simp
    moreover from sep g' a have "a \<notin> set g" by auto
    ultimately show "heap w1 a = heap w a" by (rule frame1)
  qed
  have r_fixed: "heap w' r = heap w1 r"
  proof (rule frame')
    from rr below(1) mono show "r < top w1" by auto
    from rr show "r \<notin> group_refs rest"
    proof
      assume "r \<in> set g"
      with sep show ?thesis by (auto simp: group_refs_def)
    next
      assume "r = top w \<and> top w1 = Suc (top w)"
      with below(2) show ?thesis by auto
    qed
  qed
  have head: "emitted (heap w) (top w) g r (heap w')"
    using em1 r_fixed by (rule emitted_later [where h' = "heap w'" and ?h1.0 = "heap w1"])
  have tail: "list_all2 (\<lambda>g r. emitted (heap w) (top w) g r (heap w')) (map snd rest) outs"
    using outs(2) same mono by (rule emitted_all_earlier)
  have conf: "filter (conflicting (heap w1)) (map snd rest) = filter (conflicting (heap w)) (map snd rest)"
  proof (rule filter_cong [OF refl])
    fix g' assume "g' \<in> set (map snd rest)"
    then have "map (heap w1) g' = map (heap w) g'"
      using same by simp
    then show "conflicting (heap w1) g' = conflicting (heap w) g'"
      by (simp only: conflicting_def)
  qed
  have fr: "\<forall>a. a < top w \<and> a \<notin> group_refs (kg # rest) \<longrightarrow> heap w' a = heap w a"
  proof (intro allI impI)
    fix a assume a: "a < top w \<and> a \<notin> group_refs (kg # rest)"
    then have "a \<notin> set g" "a \<notin> group_refs rest"
      by (auto simp: kg group_refs_def)
    with a mono have "heap w' a = heap w1 a" "heap w1 a = heap w a"
      using frame' frame1 by auto
    then show "heap w' a = heap w a" by simp
  qed
  have o1: "up' = up @ (r # outs)"
    using outs(1) by simp
  have o2: "list_all2 (\<lambda>g r. emitted (heap w) (top w) g r (heap w')) (map snd (kg # rest)) (r # outs)"
    using head tail by (simp add: kg)
  have o3: "dr' = dr + sum_list (map removed_in (map snd (kg # rest)))"
    using dr' by (simp add: kg)
  have o4: "cr' = cr + int (length (filter (conflicting (heap w)) (map snd (kg # rest))))"
    using cr' conf by (simp add: kg)
  have o5: "top w \<le> top w'"
    using mono mono' by simp
  have o6: "clock w' = clock w"
    using clk clk' by simp
  have o7: "int (length (stdin w')) + (cr' - cr) \<le> int (length (stdin w))"
    using inp inp' by (simp split: if_splits)
  from o1 o2 have "\<exists>outs. up' = up @ outs \<and>
            list_all2 (\<lambda>g r. emitted (heap w) (top w) g r (heap w')) (map snd (kg # rest)) outs"
    by blast
  with o3 o4 o5 o6 o7 fr show ?case
    by (intro conjI)
qed

section \<open>The merge as a whole\<close>

lemma members_of_disjoint:
  "k \<noteq> k' \<Longrightarrow> set (members_of h papers k) \<inter> set (members_of h papers k') = {}"
  by (auto simp: members_of_def)

lemma snd_identity_groups:
  "map snd (identity_groups h papers) = map (members_of h papers) (identity_keys h papers)"
  by (simp add: identity_groups_def comp_def)

lemma disjoint_groups_members:
  "distinct ks \<Longrightarrow> disjoint_groups (map (\<lambda>k. (k, members_of h papers k)) ks)"
proof (induction ks)
  case Nil
  then show ?case by simp
next
  case (Cons k ks)
  have "\<forall>g' \<in> set (map snd (map (\<lambda>k. (k, members_of h papers k)) ks)).
          set (members_of h papers k) \<inter> set g' = {}"
  proof
    fix g' assume "g' \<in> set (map snd (map (\<lambda>k. (k, members_of h papers k)) ks))"
    then obtain k' where k': "k' \<in> set ks" "g' = members_of h papers k'"
      by (auto simp: comp_def)
    with Cons.prems have "k \<noteq> k'" by auto
    then show "set (members_of h papers k) \<inter> set g' = {}"
      unfolding k'(2) by (rule members_of_disjoint)
  qed
  moreover have "disjoint_groups (map (\<lambda>k. (k, members_of h papers k)) ks)"
    using Cons by simp
  ultimately show ?case
    by simp
qed

lemma disjoint_identity_groups: "disjoint_groups (identity_groups h papers)"
  unfolding identity_groups_def
  by (rule disjoint_groups_members) (simp add: identity_keys_def)

lemma group_refs_identity_groups:
  "group_refs (identity_groups h papers) = {a \<in> set papers. key_of (h a) \<noteq> None}"
proof -
  have "group_refs (identity_groups h papers) =
          (\<Union>k \<in> set (identity_keys h papers). set (members_of h papers k))"
    unfolding group_refs_def snd_identity_groups by simp
  also have "\<dots> = {a \<in> set papers. key_of (h a) \<noteq> None}"
  proof (intro set_eqI iffI)
    fix a assume "a \<in> (\<Union>k \<in> set (identity_keys h papers). set (members_of h papers k))"
    then obtain k where "a \<in> set (members_of h papers k)" by blast
    then show "a \<in> {a \<in> set papers. key_of (h a) \<noteq> None}"
      by (simp add: members_of_def)
  next
    fix a assume "a \<in> {a \<in> set papers. key_of (h a) \<noteq> None}"
    then obtain k where a: "a \<in> set papers" "key_of (h a) = Some k" by auto
    then have "k \<in> set (identity_keys h papers)"
      unfolding set_identity_keys by blast
    moreover from a have "a \<in> set (members_of h papers k)"
      by (simp add: members_of_def)
    ultimately show "a \<in> (\<Union>k \<in> set (identity_keys h papers). set (members_of h papers k))"
      by blast
  qed
  finally show ?thesis .
qed

lemma identity_group_nonempty:
  assumes "g \<in> set (map snd (identity_groups h papers))"
  shows "g \<noteq> []"
proof -
  from assms obtain k where k: "k \<in> set (identity_keys h papers)" "g = members_of h papers k"
    unfolding snd_identity_groups by auto
  from k(1) obtain a where "a \<in> set papers" "key_of (h a) = Some k"
    unfolding set_identity_keys by blast
  then have "a \<in> set g"
    by (simp add: k(2) members_of_def)
  then show ?thesis by auto
qed

lemma identity_groups_Nil [simp]: "identity_groups h [] = []"
  by (simp add: identity_groups_def identity_keys_def map_filter_def)

lemma no_identity_Nil [simp]: "no_identity h [] = []"
  by (simp add: no_identity_def)

lemma dedup_unfold:
  assumes "deduplicate_with_conflict_resolution rp papers w = Inr ((out, dr, cr), w')"
  shows "\<exists>outs. out = outs @ no_identity (heap w) papers \<and>
           process_loop rp (identity_groups (heap w) papers) [] 0 0 w = Inr (outs, dr, cr, w')"
proof (cases "papers = []")
  case True
  with assms show ?thesis
    by (simp add: deduplicate_with_conflict_resolution_def)
next
  case False
  with assms obtain pg noid where
    gl: "group_loop (heap w) papers [] [] = Inr (pg, noid)"
    by (auto simp: deduplicate_with_conflict_resolution_def split: sum.splits)
  then have pg: "pg = identity_groups (heap w) papers" "noid = no_identity (heap w) papers"
    using group_loop_identity_groups by blast+
  with assms False gl show ?thesis
    by (auto simp: deduplicate_with_conflict_resolution_def split: sum.splits)
qed

text \<open>
  The merge in terms of the identity groups of its input. The statements about the merge
  are about a store in which every reference of the input list is an allocated object,
  that is, lies below the first free address; every Python list satisfies this.
\<close>

lemma dedup_post:
  assumes "deduplicate_with_conflict_resolution rp papers w = Inr ((out, dr, cr), w')"
    and "\<forall>a \<in> set papers. a < top w"
  shows "(\<exists>outs. out = outs @ no_identity (heap w) papers \<and>
            list_all2 (\<lambda>g r. emitted (heap w) (top w) g r (heap w'))
              (map snd (identity_groups (heap w) papers)) outs) \<and>
         dr = sum_list (map removed_in (map snd (identity_groups (heap w) papers))) \<and>
         cr = int (length (filter (conflicting (heap w)) (map snd (identity_groups (heap w) papers)))) \<and>
         (\<forall>a. a < top w \<and> a \<notin> group_refs (identity_groups (heap w) papers) \<longrightarrow> heap w' a = heap w a) \<and>
         int (length (stdin w')) + cr \<le> int (length (stdin w))"
proof -
  from dedup_unfold [OF assms(1)] obtain outs where
    out: "out = outs @ no_identity (heap w) papers" and
    run: "process_loop rp (identity_groups (heap w) papers) [] 0 0 w = Inr (outs, dr, cr, w')"
    by blast
  have below: "\<forall>a \<in> group_refs (identity_groups (heap w) papers). a < top w"
    using assms(2) by (simp add: group_refs_identity_groups)
  note post = process_loop_post [OF run disjoint_identity_groups below]
  from post have "list_all2 (\<lambda>g r. emitted (heap w) (top w) g r (heap w'))
              (map snd (identity_groups (heap w) papers)) outs"
    by simp
  with out have "\<exists>outs. out = outs @ no_identity (heap w) papers \<and>
            list_all2 (\<lambda>g r. emitted (heap w) (top w) g r (heap w'))
              (map snd (identity_groups (heap w) papers)) outs"
    by blast
  moreover from post have "dr = sum_list (map removed_in (map snd (identity_groups (heap w) papers)))"
    by simp
  moreover from post have "cr = int (length (filter (conflicting (heap w)) (map snd (identity_groups (heap w) papers))))"
    by simp
  moreover from post have "\<forall>a. a < top w \<and> a \<notin> group_refs (identity_groups (heap w) papers) \<longrightarrow> heap w' a = heap w a"
    by blast
  moreover from post have "int (length (stdin w')) + cr \<le> int (length (stdin w))"
    by simp
  ultimately show ?thesis
    by (intro conjI)
qed

text \<open>The emitted reference of the i-th group.\<close>

lemma dedup_emitted_nth:
  assumes "deduplicate_with_conflict_resolution rp papers w = Inr ((out, dr, cr), w')"
    and "\<forall>a \<in> set papers. a < top w"
    and "i < length (identity_groups (heap w) papers)"
  shows "emitted (heap w) (top w) (snd (identity_groups (heap w) papers ! i)) (out ! i) (heap w')"
proof -
  from dedup_post [OF assms(1,2)] obtain outs where
    out: "out = outs @ no_identity (heap w) papers" and
    all: "list_all2 (\<lambda>g r. emitted (heap w) (top w) g r (heap w'))
              (map snd (identity_groups (heap w) papers)) outs"
    by blast
  from all have len: "length outs = length (identity_groups (heap w) papers)"
    by (auto dest: list_all2_lengthD)
  from all assms(3) have "emitted (heap w) (top w) (map snd (identity_groups (heap w) papers) ! i)
      (outs ! i) (heap w')"
    by (simp add: list_all2_conv_all_nth)
  with assms(3) len out show ?thesis
    by (simp add: nth_append)
qed

lemma unanimous_iff:
  "ds \<noteq> [] \<Longrightarrow> unanimous ds \<longleftrightarrow> \<not> decisions_differ ds"
proof -
  assume ne: "ds \<noteq> []"
  let ?S = "set (decisions_of ds)"
  have fin: "finite ?S" by simp
  from ne have nonempty: "?S \<noteq> {}" by (simp add: decisions_of_def)
  show ?thesis
  proof
    assume "unanimous ds"
    then obtain x where "?S = {x}"
      by (auto simp: unanimous_def card_1_singleton_iff)
    then show "\<not> decisions_differ ds"
      unfolding decisions_differ_def by auto
  next
    assume nd: "\<not> decisions_differ ds"
    from ne obtain x where x: "x \<in> ?S"
      by (cases ds) (auto simp: decisions_of_def)
    with nd have "?S = {x}"
      unfolding decisions_differ_def by blast
    then show "unanimous ds"
      by (simp add: unanimous_def)
  qed
qed

lemma singleton_not_differ: "length ds = 1 \<Longrightarrow> \<not> decisions_differ ds"
  by (cases ds) (auto simp: decisions_differ_def decisions_of_def)

lemma conflicting_iff:
  "g \<noteq> [] \<Longrightarrow> conflicting h g \<longleftrightarrow> decisions_differ (map h g)"
  using unanimous_iff [of "map h g"] singleton_not_differ [of "map h g"]
  by (auto simp: conflicting_def)

section \<open>Audit trail of the groups\<close>

lemma source_triple_duplicate_source: "source_triple (duplicate_source p) = member_triple p"
  by (simp add: source_triple_def duplicate_source_def member_triple_def dict_get_def)

lemma entry_fields_original_decision: "entry_fields (original_decision p) = member_fields p"
  by (simp add: entry_fields_def original_decision_def member_fields_def dict_get_def)

lemma emitted_unanimous:
  assumes "emitted h t g r h'" and "1 < length g" and "unanimous (map h g)"
  shows "r = hd g"
    and "h' (hd g) = dict_set ''duplicate_sources'' (JList (map duplicate_source (map h g))) (h (hd g))"
  using assms by (auto simp: emitted_def)

lemma emitted_conflict:
  assumes "emitted h t g r h'" and "1 < length g" and "\<not> unanimous (map h g)"
  shows "t \<le> r" and "resolved_from (map h g) (h' r)"
  using assms by (auto simp: emitted_def)

text \<open>
  Claim C9. For a unanimous identity group with more than one member, the reference
  emitted at the group's position is the group's first member itself (an element of the
  input list, not a copy), and after the merge that object is what it was before with
  \<^verbatim>\<open>duplicate_sources\<close> assigned: every other key reads as before.
\<close>

theorem unanimous_representative_in_place:
  assumes "deduplicate_with_conflict_resolution rp papers w = Inr ((out, dr, cr), w')"
    and "\<forall>a \<in> set papers. a < top w"
    and "i < length (identity_groups (heap w) papers)"
    and "g = snd (identity_groups (heap w) papers ! i)"
    and "1 < length g"
    and "unanimous (map (heap w) g)"
  shows "out ! i = hd g \<and> hd g \<in> set papers \<and>
         heap w' (hd g) =
           dict_set ''duplicate_sources'' (JList (map duplicate_source (map (heap w) g)))
             (heap w (hd g)) \<and>
         (\<forall>k. k \<noteq> ''duplicate_sources'' \<longrightarrow>
              map_of (heap w' (out ! i)) k = map_of (heap w (hd g)) k)"
proof -
  have em: "emitted (heap w) (top w) g (out ! i) (heap w')"
    unfolding assms(4) using assms(1,2,3) by (rule dedup_emitted_nth)
  note r = emitted_unanimous(1) [OF em assms(5,6)]
  note h = emitted_unanimous(2) [OF em assms(5,6)]
  from assms(3,4) have "g \<in> set (map snd (identity_groups (heap w) papers))"
    by (metis length_map nth_map nth_mem)
  then have "set g \<subseteq> group_refs (identity_groups (heap w) papers)"
    by (auto simp: group_refs_def)
  moreover from assms(5) have "hd g \<in> set g"
    by (cases g) auto
  ultimately have "hd g \<in> set papers"
    by (auto simp: group_refs_identity_groups)
  with r h show ?thesis
    by (simp add: map_of_dict_set)
qed

text \<open>
  Claim C1, as amended. For an identity group with more than one member: when the group
  is unanimous, the emitted record carries \<^verbatim>\<open>duplicate_sources\<close> with one entry per
  member in group order, whose (query id, decision, confidence) triples are those of the
  members, position by position and hence as multisets. When the group is conflicting,
  the resolved record lists one entry per member in group order under
  \<^verbatim>\<open>conflict_resolution.original_decisions\<close> instead, each entry holding the query
  description, the decision, the confidence and the reason of its member, and its
  \<^verbatim>\<open>duplicate_sources\<close> key is whatever a member already had: the merge assigns none.
\<close>

theorem audit_trail_of_groups:
  assumes "deduplicate_with_conflict_resolution rp papers w = Inr ((out, dr, cr), w')"
    and "\<forall>a \<in> set papers. a < top w"
    and "i < length (identity_groups (heap w) papers)"
    and "g = snd (identity_groups (heap w) papers ! i)"
    and "1 < length g"
  shows "(unanimous (map (heap w) g) \<longrightarrow>
            (\<exists>entries. map_of (heap w' (out ! i)) ''duplicate_sources'' = Some (JList entries) \<and>
               length entries = length g \<and>
               map source_triple entries = map member_triple (map (heap w) g) \<and>
               mset (map source_triple entries) = mset (map member_triple (map (heap w) g)))) \<and>
         (\<not> unanimous (map (heap w) g) \<longrightarrow>
            (\<exists>entries. original_decisions_of (heap w' (out ! i)) = Some (JList entries) \<and>
               length entries = length g \<and>
               map entry_fields entries = map member_fields (map (heap w) g)) \<and>
            (\<exists>a \<in> set g. map_of (heap w' (out ! i)) ''duplicate_sources'' =
                           map_of (heap w a) ''duplicate_sources''))"
proof -
  have em: "emitted (heap w) (top w) g (out ! i) (heap w')"
    unfolding assms(4) using assms(1,2,3) by (rule dedup_emitted_nth)
  show ?thesis
  proof (intro conjI impI)
    assume un: "unanimous (map (heap w) g)"
    let ?entries = "map duplicate_source (map (heap w) g)"
    have "heap w' (hd g) = dict_set ''duplicate_sources'' (JList ?entries) (heap w (hd g))"
      using em assms(5) un by (rule emitted_unanimous(2))
    moreover have "out ! i = hd g"
      using em assms(5) un by (rule emitted_unanimous(1))
    ultimately have "map_of (heap w' (out ! i)) ''duplicate_sources'' = Some (JList ?entries)"
      by (simp only: map_of_dict_set_same)
    moreover have "length ?entries = length g"
      by simp
    moreover have m: "map source_triple ?entries = map member_triple (map (heap w) g)"
      by (simp add: source_triple_duplicate_source)
    moreover from m have "mset (map source_triple ?entries) = mset (map member_triple (map (heap w) g))"
      by (rule arg_cong)
    ultimately show "\<exists>entries. map_of (heap w' (out ! i)) ''duplicate_sources'' = Some (JList entries) \<and>
               length entries = length g \<and>
               map source_triple entries = map member_triple (map (heap w) g) \<and>
               mset (map source_triple entries) = mset (map member_triple (map (heap w) g))"
      by blast
  next
    assume nu: "\<not> unanimous (map (heap w) g)"
    let ?entries = "map original_decision (map (heap w) g)"
    have rf: "resolved_from (map (heap w) g) (heap w' (out ! i))"
      using em assms(5) nu by (rule emitted_conflict(2))
    then have "original_decisions_of (heap w' (out ! i)) = Some (JList ?entries)"
      by (simp add: resolved_from_def)
    moreover have "length ?entries = length g"
      by simp
    moreover have "map entry_fields ?entries = map member_fields (map (heap w) g)"
      by (simp add: entry_fields_original_decision)
    ultimately show "\<exists>entries. original_decisions_of (heap w' (out ! i)) = Some (JList entries) \<and>
               length entries = length g \<and>
               map entry_fields entries = map member_fields (map (heap w) g)"
      by blast
    from rf obtain m where m: "m \<in> set (map (heap w) g)"
      "\<forall>k. k \<notin> {''decision'', ''confidence'', ''reason'', ''conflict_resolution''}
        \<longrightarrow> map_of (heap w' (out ! i)) k = map_of m k"
      unfolding resolved_from_def by blast
    from m(1) obtain a where a: "a \<in> set g" "m = heap w a"
      by auto
    from m(2) have "map_of (heap w' (out ! i)) ''duplicate_sources'' = map_of m ''duplicate_sources''"
      by simp
    with a show "\<exists>a \<in> set g. map_of (heap w' (out ! i)) ''duplicate_sources'' =
                           map_of (heap w a) ''duplicate_sources''"
      by blast
  qed
qed

section \<open>Conflict accounting\<close>

lemma removed_sum:
  "sum_list (map removed_in gs) = (\<Sum>g\<leftarrow>filter (\<lambda>g. 1 < length g) gs. int (length g) - 1)"
  if "\<forall>g \<in> set gs. g \<noteq> []"
  using that
proof (induction gs)
  case Nil
  then show ?case by simp
next
  case (Cons g gs)
  then have "g \<noteq> []" by simp
  then have "length g = 1 \<or> 1 < length g"
    by (cases g) auto
  with Cons show ?case
    by (auto simp: removed_in_def)
qed

text \<open>
  The merge returns on screened records when every line of input is one of the answers
  1 to 4 and there is a line for every conflicting group.
\<close>

lemma for_each_all: "\<forall>x \<in> set xs. f x = Inr () \<Longrightarrow> for_each f xs = Inr ()"
  by (induction xs) simp_all

lemma screened_text:
  assumes "screened_record d"
  shows "optional_text d ''doi''" and "optional_text d ''openalex_id''"
    and "optional_text d ''title''" and "optional_text d ''abstract''"
  using assms by (simp_all add: screened_record_def)

lemma screened_has_decision:
  assumes "screened_record d"
  shows "\<exists>s. map_of d ''decision'' = Some (JStr s)"
proof -
  from assms have "case map_of d ''decision'' of Some (JStr _) \<Rightarrow> True | _ \<Rightarrow> False"
    by (simp add: screened_record_def)
  then show ?thesis
    by (auto split: option.splits jval.splits)
qed

lemma screened_confidence:
  assumes "screened_record d"
  shows "\<exists>c. dict_get d ''confidence'' (JNum 0) = JNum c \<and> 0 \<le> c \<and> c \<le> 1"
proof -
  from assms have "case map_of d ''confidence'' of
        None \<Rightarrow> True | Some (JNum c) \<Rightarrow> 0 \<le> c \<and> c \<le> 1 | Some _ \<Rightarrow> False"
    by (simp add: screened_record_def)
  then show ?thesis
    by (auto simp: dict_get_def split: option.splits jval.splits)
qed

lemma optional_text_get:
  "optional_text d k \<Longrightarrow> \<exists>s. dict_get d k (JStr dflt) = JStr s"
  by (auto simp: optional_text_def dict_get_def split: option.splits jval.splits)

lemma screened_reads:
  assumes "screened_record d"
  shows "\<exists>doi oid. read_identifiers d = Inr (doi, oid)"
proof -
  from optional_text_get [OF screened_text(1) [OF assms]] obtain s where
    "dict_get d ''doi'' (JStr []) = JStr s" by blast
  moreover from optional_text_get [OF screened_text(2) [OF assms]] obtain t where
    "dict_get d ''openalex_id'' (JStr []) = JStr t" by blast
  ultimately show ?thesis
    by (simp add: read_identifiers_def py_strip_def)
qed

lemma screened_title:
  assumes "screened_record d"
  shows "debug_title d = Inr ()"
proof -
  from optional_text_get [OF screened_text(3) [OF assms]] obtain s where
    "dict_get d ''title'' (JStr ''No title'') = JStr s" by blast
  then show ?thesis
    by (simp add: debug_title_def py_slice_def)
qed

lemma screened_hashable:
  assumes "screened_record d"
  shows "hashable (dict_get d ''decision'' (JStr ''UNKNOWN''))"
proof -
  from screened_has_decision [OF assms] obtain s where
    "dict_get d ''decision'' (JStr ''UNKNOWN'') = JStr s"
    by (auto simp: dict_get_def)
  then show ?thesis by simp
qed

lemma author_name_ok_text:
  "author_name_ok a = (case a of JObj e \<Rightarrow> optional_text e ''name'' | _ \<Rightarrow> True)"
  by (simp add: author_name_ok_def optional_text_def split: jval.splits)

lemma list_all_take: "list_all P xs \<Longrightarrow> list_all P (take n xs)"
  by (auto simp: list_all_iff dest: in_set_takeD)

lemma screened_authors: "screened_record d \<Longrightarrow> show_authors d = Inr ()"
proof -
  assume s: "screened_record d"
  show ?thesis
  proof (cases "dict_get d ''authors'' (JList [])")
    case (JList authors)
    show ?thesis
    proof (cases "authors = []")
      case True
      with JList show ?thesis by (simp add: show_authors_def)
    next
      case False
      with JList have "map_of d ''authors'' = Some (JList authors)"
        by (auto simp: dict_get_def split: option.splits)
      moreover from s have "case map_of d ''authors'' of
          Some (JList authors) \<Rightarrow>
            list_all (\<lambda>a. case a of JObj e \<Rightarrow> optional_text e ''name'' | _ \<Rightarrow> True) authors
        | _ \<Rightarrow> True"
        by (simp add: screened_record_def)
      ultimately have "list_all author_name_ok authors"
        by (simp add: author_name_ok_text [abs_def])
      then have "list_all author_name_ok (take 3 authors)"
        by (rule list_all_take)
      with JList show ?thesis by (simp add: show_authors_def)
    qed
  qed (simp_all add: show_authors_def)
qed

lemma screened_abstract:
  assumes "screened_record d"
  shows "show_abstract d = Inr ()"
  using screened_text(4) [OF assms]
  by (auto simp: optional_text_def show_abstract_def dict_get_def Let_def
      split: option.splits jval.splits)

lemma screened_decision:
  assumes "screened_record d"
  shows "show_decision d = Inr ()"
proof -
  from screened_confidence [OF assms] obtain c where
    c: "dict_get d ''confidence'' (JNum 0) = JNum c" "0 \<le> c" "c \<le> 1"
    by blast
  have "(1::real) < 2 ^ 1024 - 2 ^ 970"
    by simp
  with c(2,3) have "\<not> 2 ^ 1024 - 2 ^ 970 \<le> \<bar>c\<bar>"
    by linarith
  with c(1) show ?thesis
    by (simp add: show_decision_def fmt_2f_def)
qed

lemma show_conflict_screened:
  assumes "ds \<noteq> []" and "\<forall>p \<in> set ds. screened_record p"
  shows "show_conflict ds = Inr ()"
proof -
  from assms(1) obtain p ps where ds: "ds = p # ps"
    by (cases ds) auto
  with assms(2) have "screened_record p" by simp
  then have "show_authors p = Inr ()" "show_abstract p = Inr ()"
    by (simp_all add: screened_authors screened_abstract)
  moreover have "for_each show_decision ds = Inr ()"
    by (rule for_each_all) (use assms(2) screened_decision in blast)
  ultimately show ?thesis
    by (simp add: show_conflict_def ds)
qed

lemma group_loop_returns:
  "\<forall>a \<in> set papers. screened_record (h a) \<Longrightarrow> \<exists>res. group_loop h papers pg noid = Inr res"
proof (induction papers arbitrary: pg noid)
  case Nil
  then show ?case by simp
next
  case (Cons a papers)
  then have s: "screened_record (h a)" by simp
  from screened_reads [OF s] obtain doi oid where "read_identifiers (h a) = Inr (doi, oid)"
    by blast
  moreover note screened_title [OF s]
  moreover have "\<exists>res. group_loop h papers pg' noid' = Inr res" for pg' noid'
    using Cons by simp
  ultimately show ?case
    by (simp split: option.splits)
qed

lemma manual_choice_returns:
  "ds \<noteq> [] \<Longrightarrow> \<exists>res. manual_choice rp decision method ds w = Inr res"
  by (cases ds) (simp_all add: manual_choice_def now_isoformat_def split: prod.splits)

lemma highest_confidence_returns:
  assumes "ds \<noteq> []" and "\<forall>p \<in> set ds. screened_record p"
  shows "\<exists>res. highest_confidence ds w = Inr res"
proof -
  from assms(1) obtain first rest where ds: "ds = first # rest"
    by (cases ds) auto
  have "confidence_is_num p" if "p \<in> set ds" for p
    using screened_confidence [of p] assms(2) that by (auto simp: confidence_is_num_def)
  then have nums: "list_all confidence_is_num (first # rest)"
    unfolding ds by (simp only: list_all_iff) blast
  have "max_by confidence_key first rest \<in> set ds"
    unfolding ds by (rule max_by_in)
  with assms(2) have "screened_record (max_by confidence_key first rest)"
    by blast
  from screened_has_decision [OF this] obtain s where
    "map_of (max_by confidence_key first rest) ''decision'' = Some (JStr s)"
    by blast
  with nums show ?thesis
    unfolding ds highest_confidence_def
    by (simp add: Let_def now_isoformat_def map_of_dict_set split: prod.splits)
qed

lemma most_recent_returns:
  assumes "ds \<noteq> []" and "\<forall>p \<in> set ds. screened_record p"
  shows "\<exists>res. most_recent ds w = Inr res"
proof -
  from assms(1) obtain first rest where ds: "ds = first # rest"
    by (cases ds) auto
  from assms have "screened_record (last ds)"
    by simp
  from screened_has_decision [OF this] obtain s where
    "map_of (last (first # rest)) ''decision'' = Some (JStr s)"
    unfolding ds by blast
  then show ?thesis
    unfolding ds most_recent_def
    by (simp add: Let_def now_isoformat_def map_of_dict_set split: prod.splits)
qed

text \<open>
  A conflict among such records is resolved by the next line of input when that line is
  one of the answers 1 to 4.
\<close>

lemma resolve_answered:
  assumes "stdin w = l # ls"
    and "str_strip l \<in> {''1'', ''2'', ''3'', ''4''}"
    and "g \<noteq> []"
    and "\<forall>a \<in> set g. screened_record (heap w a)"
  shows "\<exists>r w1. resolve_screening_conflict rp g k w = Inr (r, w1) \<and> stdin w1 = ls \<and>
           top w1 = Suc (top w) \<and> (\<forall>a. a \<noteq> top w \<longrightarrow> heap w1 a = heap w a)"
proof -
  let ?ds = "map (heap w) g"
  let ?w1 = "w\<lparr>stdin := ls\<rparr>"
  have ne: "?ds \<noteq> []" and scr: "\<forall>p \<in> set ?ds. screened_record p"
    using assms(3,4) by auto
  have "show_conflict ?ds = Inr ()"
    using ne scr by (rule show_conflict_screened)
  then have run: "resolve_screening_conflict rp g k w = prompt_loop rp ?ds (l # ls) w"
    by (simp add: resolve_screening_conflict_def Let_def assms(1))
  from assms(2) consider "str_strip l = ''1''" | "str_strip l = ''2''" | "str_strip l = ''3''"
    | "str_strip l = ''4''"
    by auto
  then have "\<exists>r w1. prompt_loop rp ?ds (l # ls) w = Inr (r, w1) \<and> resolver_post ?ds ?w1 r w1"
  proof cases
    case 1
    from manual_choice_returns [OF ne] obtain r w1 where
      m: "manual_choice rp ''INCLUDE'' ''manual_include'' ?ds ?w1 = Inr (r, w1)"
      by fastforce
    from manual_choice_post [OF m] m 1 show ?thesis
      by (simp add: Let_def)
  next
    case 2
    from manual_choice_returns [OF ne] obtain r w1 where
      m: "manual_choice rp ''EXCLUDE'' ''manual_exclude'' ?ds ?w1 = Inr (r, w1)"
      by fastforce
    from manual_choice_post [OF m] m 2 show ?thesis
      by (simp add: Let_def)
  next
    case 3
    from highest_confidence_returns [OF ne scr] obtain r w1 where
      m: "highest_confidence ?ds ?w1 = Inr (r, w1)"
      by fastforce
    from highest_confidence_post [OF m] m 3 show ?thesis
      by (simp add: Let_def)
  next
    case 4
    from most_recent_returns [OF ne scr] obtain r w1 where
      m: "most_recent ?ds ?w1 = Inr (r, w1)"
      by fastforce
    from most_recent_post [OF m] m 4 show ?thesis
      by (simp add: Let_def)
  qed
  then obtain r w1 where
    "resolve_screening_conflict rp g k w = Inr (r, w1)" "resolver_post ?ds ?w1 r w1"
    unfolding run by blast
  then show ?thesis
    by (auto simp: resolver_post_def)
qed

lemma unique_decisions_screened:
  assumes "\<forall>a \<in> set g. screened_record (h a)"
  shows "unique_decisions (decisions_of (map h g)) = Inr (set (decisions_of (map h g)))"
proof -
  have "list_all hashable (decisions_of (map h g))"
    using assms by (simp add: decisions_of_def list_all_iff screened_hashable)
  then show ?thesis
    by (simp add: unique_decisions_def)
qed

lemma conflicting_same:
  assumes "\<forall>g' \<in> set gs. \<forall>a \<in> set g'. h1 a = h a"
  shows "filter (conflicting h1) gs = filter (conflicting h) gs"
proof (rule filter_cong [OF refl])
  fix g' assume "g' \<in> set gs"
  with assms have "map h1 g' = map h g'"
    by simp
  then show "conflicting h1 g' = conflicting h g'"
    by (simp only: conflicting_def)
qed

lemma process_loop_returns:
  assumes "disjoint_groups gs"
    and "\<forall>a \<in> group_refs gs. a < top w \<and> screened_record (heap w a)"
    and "\<forall>g \<in> set (map snd gs). g \<noteq> []"
    and "\<forall>l \<in> set (stdin w). str_strip l \<in> {''1'', ''2'', ''3'', ''4''}"
    and "length (filter (conflicting (heap w)) (map snd gs)) \<le> length (stdin w)"
  shows "\<exists>res. process_loop rp gs up dr cr w = Inr res"
  using assms
proof (induction gs arbitrary: up dr cr w)
  case Nil
  then show ?case by simp
next
  case (Cons kg rest)
  obtain k g where kg: "kg = (k, g)" by (cases kg)
  have dis: "disjoint_groups rest" and sep: "\<forall>g' \<in> set (map snd rest). set g \<inter> set g' = {}"
    using Cons.prems(1) by (simp_all add: kg)
  have mem: "\<forall>a \<in> set g. a < top w \<and> screened_record (heap w a)"
    and others: "\<forall>a \<in> group_refs rest. a < top w \<and> screened_record (heap w a)"
    using Cons.prems(2) by (auto simp: kg group_refs_def)
  have ne: "g \<noteq> []" and nes: "\<forall>g \<in> set (map snd rest). g \<noteq> []"
    using Cons.prems(3) by (simp_all add: kg)
  have count: "(if conflicting (heap w) g then 1 else 0) +
      length (filter (conflicting (heap w)) (map snd rest)) \<le> length (stdin w)"
    using Cons.prems(5) by (cases "conflicting (heap w) g") (simp_all add: kg)
  have step: "\<exists>res. process_loop rp rest up1 dr1 cr1 w1 = Inr res"
    if "top w \<le> top w1"
      and "\<forall>a. a < top w \<and> a \<notin> set g \<longrightarrow> heap w1 a = heap w a"
      and "\<forall>l \<in> set (stdin w1). str_strip l \<in> {''1'', ''2'', ''3'', ''4''}"
      and "length (filter (conflicting (heap w)) (map snd rest)) \<le> length (stdin w1)"
    for up1 dr1 cr1 w1
  proof -
    have same: "\<forall>g' \<in> set (map snd rest). \<forall>a \<in> set g'. heap w1 a = heap w a"
    proof (intro ballI)
      fix g' a assume g': "g' \<in> set (map snd rest)" and a: "a \<in> set g'"
      then have "a \<in> group_refs rest" by (auto simp: group_refs_def)
      with others have "a < top w" by simp
      moreover from sep g' a have "a \<notin> set g" by auto
      ultimately show "heap w1 a = heap w a" using that(2) by simp
    qed
    have refs1: "\<forall>a \<in> group_refs rest. a < top w1 \<and> screened_record (heap w1 a)"
    proof
      fix a assume a: "a \<in> group_refs rest"
      then obtain g' where "g' \<in> set (map snd rest)" "a \<in> set g'"
        by (auto simp: group_refs_def)
      with same have "heap w1 a = heap w a" by blast
      with others a that(1) show "a < top w1 \<and> screened_record (heap w1 a)"
        by auto
    qed
    have "filter (conflicting (heap w1)) (map snd rest) = filter (conflicting (heap w)) (map snd rest)"
      using same by (rule conflicting_same)
    with that(4) have count1: "length (filter (conflicting (heap w1)) (map snd rest)) \<le> length (stdin w1)"
      by simp
    from dis refs1 nes that(3) count1 show ?thesis
      by (rule Cons.IH)
  qed
  show ?case
  proof (cases "length g = 1")
    case True
    then have "\<not> conflicting (heap w) g"
      by (simp add: conflicting_def)
    with count have "length (filter (conflicting (heap w)) (map snd rest)) \<le> length (stdin w)"
      by simp
    with Cons.prems(4) have "\<exists>res. process_loop rp rest (up @ [hd g]) dr cr w = Inr res"
      by (intro step) simp_all
    with True show ?thesis
      by (simp add: kg)
  next
    case False
    have ud: "unique_decisions (decisions_of (map (heap w) g)) =
        Inr (set (decisions_of (map (heap w) g)))"
      by (rule unique_decisions_screened) (use mem in blast)
    show ?thesis
    proof (cases "card (set (decisions_of (map (heap w) g))) = 1")
      case True
      from ne obtain rep tl where g: "g = rep # tl"
        by (cases g) auto
      let ?w1 = "w\<lparr>heap := (heap w)(rep := dict_set ''duplicate_sources''
          (JList (map duplicate_source (map (heap w) g))) (heap w rep))\<rparr>"
      from True have "\<not> conflicting (heap w) g"
        by (simp add: conflicting_def unanimous_def)
      with count have c: "length (filter (conflicting (heap w)) (map snd rest)) \<le> length (stdin ?w1)"
        by simp
      have "\<exists>res. process_loop rp rest (up @ [rep]) (dr + (int (length g) - 1)) cr ?w1 = Inr res"
        using Cons.prems(4) c by (intro step) (simp_all add: g)
      with False ud True show ?thesis
        by (simp add: kg g Let_def)
    next
      case c: False
      with False have conf: "conflicting (heap w) g"
        by (simp add: conflicting_def unanimous_def)
      with count have "1 \<le> length (stdin w)"
        by simp
      then obtain l ls where st: "stdin w = l # ls"
        by (cases "stdin w") auto
      with Cons.prems(4) have ans: "str_strip l \<in> {''1'', ''2'', ''3'', ''4''}"
        and rest_ans: "\<forall>l \<in> set ls. str_strip l \<in> {''1'', ''2'', ''3'', ''4''}"
        by simp_all
      have scr: "\<forall>a \<in> set g. screened_record (heap w a)"
        using mem by blast
      from resolve_answered [OF st ans ne scr, of rp k] obtain r w1 where
        res: "resolve_screening_conflict rp g k w = Inr (r, w1)" and
        w1: "stdin w1 = ls" "top w1 = Suc (top w)" "\<forall>a. a \<noteq> top w \<longrightarrow> heap w1 a = heap w a"
        by blast
      from count conf st have c1: "length (filter (conflicting (heap w)) (map snd rest)) \<le> length (stdin w1)"
        by (simp add: w1(1))
      have "\<exists>res. process_loop rp rest (up @ [r]) (dr + (int (length g) - 1)) (cr + 1) w1 = Inr res"
        using rest_ans c1 w1 by (intro step) simp_all
      with False ud c res show ?thesis
        by (simp add: kg Let_def)
    qed
  qed
qed

lemma dedup_returns:
  assumes "\<forall>a \<in> set papers. a < top w \<and> screened_record (heap w a)"
    and "\<forall>l \<in> set (stdin w). str_strip l \<in> {''1'', ''2'', ''3'', ''4''}"
    and "length (filter (conflicting (heap w)) (map snd (identity_groups (heap w) papers))) \<le>
           length (stdin w)"
  shows "\<exists>res. deduplicate_with_conflict_resolution rp papers w = Inr res"
proof (cases "papers = []")
  case True
  then show ?thesis
    by (simp add: deduplicate_with_conflict_resolution_def)
next
  case False
  have "\<exists>res. group_loop (heap w) papers [] [] = Inr res"
    by (rule group_loop_returns) (use assms(1) in blast)
  then obtain pg noid where gl: "group_loop (heap w) papers [] [] = Inr (pg, noid)"
    by auto
  then have pg: "pg = identity_groups (heap w) papers"
    using group_loop_identity_groups by blast
  have refs: "\<forall>a \<in> group_refs (identity_groups (heap w) papers). a < top w \<and> screened_record (heap w a)"
    using assms(1) by (simp add: group_refs_identity_groups)
  have ne: "\<forall>g \<in> set (map snd (identity_groups (heap w) papers)). g \<noteq> []"
    using identity_group_nonempty by blast
  from process_loop_returns [OF disjoint_identity_groups refs ne assms(2,3), of rp "[]" 0 0]
  obtain res where "process_loop rp (identity_groups (heap w) papers) [] 0 0 w = Inr res"
    by blast
  with False gl pg show ?thesis
    by (auto simp: deduplicate_with_conflict_resolution_def split: prod.splits)
qed

text \<open>
  Claim C4. Whenever the merge returns, \<open>conflicts_resolved\<close> is the number of identity
  groups with two members whose decisions differ, and \<open>duplicates_removed\<close> is the sum of
  size - 1 over the identity groups with more than one member. And it does return, with
  these two counts, on every list of screened records when each line of input is one of
  the answers 1 to 4 and there are at least as many lines as conflicting groups.
\<close>

theorem conflict_accounting:
  assumes "\<forall>a \<in> set papers. a < top w"
  shows "(\<forall>out dr cr w'.
            deduplicate_with_conflict_resolution rp papers w = Inr ((out, dr, cr), w') \<longrightarrow>
            cr = int (length (filter (\<lambda>g. decisions_differ (map (heap w) g))
                        (map snd (identity_groups (heap w) papers)))) \<and>
            dr = (\<Sum>g\<leftarrow>filter (\<lambda>g. 1 < length g) (map snd (identity_groups (heap w) papers)).
                    int (length g) - 1)) \<and>
         ((\<forall>a \<in> set papers. screened_record (heap w a)) \<and>
          (\<forall>l \<in> set (stdin w). str_strip l \<in> {''1'', ''2'', ''3'', ''4''}) \<and>
          length (filter (\<lambda>g. decisions_differ (map (heap w) g))
                    (map snd (identity_groups (heap w) papers))) \<le> length (stdin w) \<longrightarrow>
          (\<exists>out w'. deduplicate_with_conflict_resolution rp papers w =
             Inr ((out,
                   (\<Sum>g\<leftarrow>filter (\<lambda>g. 1 < length g) (map snd (identity_groups (heap w) papers)).
                      int (length g) - 1),
                   int (length (filter (\<lambda>g. decisions_differ (map (heap w) g))
                          (map snd (identity_groups (heap w) papers))))), w')))"
proof -
  let ?gs = "map snd (identity_groups (heap w) papers)"
  have ne: "\<forall>g \<in> set ?gs. g \<noteq> []"
    using identity_group_nonempty by blast
  have conf: "filter (conflicting (heap w)) ?gs = filter (\<lambda>g. decisions_differ (map (heap w) g)) ?gs"
    by (rule filter_cong [OF refl]) (use ne conflicting_iff in blast)
  have counts: "cr = int (length (filter (\<lambda>g. decisions_differ (map (heap w) g)) ?gs)) \<and>
      dr = (\<Sum>g\<leftarrow>filter (\<lambda>g. 1 < length g) ?gs. int (length g) - 1)"
    if run: "deduplicate_with_conflict_resolution rp papers w = Inr ((out, dr, cr), w')"
    for out dr cr w'
  proof -
    note post = dedup_post [OF run assms]
    from post have "cr = int (length (filter (conflicting (heap w)) ?gs))"
      by simp
    moreover from post have "dr = sum_list (map removed_in ?gs)"
      by simp
    ultimately show ?thesis
      using removed_sum [OF ne] conf by simp
  qed
  have returns: "\<exists>out w'. deduplicate_with_conflict_resolution rp papers w =
      Inr ((out, (\<Sum>g\<leftarrow>filter (\<lambda>g. 1 < length g) ?gs. int (length g) - 1),
            int (length (filter (\<lambda>g. decisions_differ (map (heap w) g)) ?gs))), w')"
    if scr: "\<forall>a \<in> set papers. screened_record (heap w a)"
      and ans: "\<forall>l \<in> set (stdin w). str_strip l \<in> {''1'', ''2'', ''3'', ''4''}"
      and enough: "length (filter (\<lambda>g. decisions_differ (map (heap w) g)) ?gs) \<le> length (stdin w)"
  proof -
    have refs: "\<forall>a \<in> set papers. a < top w \<and> screened_record (heap w a)"
      using assms scr by blast
    have "length (filter (conflicting (heap w)) ?gs) \<le> length (stdin w)"
      using enough by (simp only: conf)
    with refs ans obtain res where "deduplicate_with_conflict_resolution rp papers w = Inr res"
      using dedup_returns by blast
    moreover obtain out dr cr w' where "res = ((out, dr, cr), w')"
      by (metis prod.exhaust)
    ultimately have run: "deduplicate_with_conflict_resolution rp papers w = Inr ((out, dr, cr), w')"
      by simp
    from counts [OF run] run show ?thesis
      by blast
  qed
  from counts returns show ?thesis
    by blast
qed

lemmas eval_defs = deduplicate_with_conflict_resolution_def world_of_def read_identifiers_def
  py_strip_def dict_get_def str_strip_def is_space_def str_lower_def lower_char_def debug_title_def
  py_slice_def primary_identifier_def decisions_of_def unique_decisions_def duplicate_source_def
  resolve_screening_conflict_def show_conflict_def show_authors_def show_abstract_def
  show_decision_def show_detail_def fmt_2f_def highest_confidence_def manual_choice_def most_recent_def
  confidence_key_def confidence_is_num_def now_isoformat_def alloc_def conflict_resolution_def
  original_decision_def merged_papers_def merge_summary_def decisions_text_def Let_def

section \<open>The options of the resolver\<close>

lemma max_by_ge: "\<forall>y \<in> set (b # xs). key y \<le> key (max_by key b xs)"
proof (induction xs arbitrary: b)
  case Nil
  then show ?case by simp
next
  case (Cons x xs)
  show ?case
  proof (cases "key x > key b")
    case True
    with Cons [of x] show ?thesis by force
  next
    case False
    with Cons [of b] show ?thesis by force
  qed
qed

lemma max_by_split:
  "\<exists>pre post. b # xs = pre @ max_by key b xs # post \<and>
     (\<forall>y \<in> set pre. key y < key (max_by key b xs)) \<and>
     (\<forall>y \<in> set post. key y \<le> key (max_by key b xs))"
proof (induction xs arbitrary: b)
  case Nil
  have "[b] = [] @ max_by key b [] # [] \<and> (\<forall>y \<in> set []. key y < key (max_by key b [])) \<and>
      (\<forall>y \<in> set []. key y \<le> key (max_by key b []))"
    by simp
  then show ?case
    by (intro exI)
next
  case (Cons x xs)
  show ?case
  proof (cases "key x > key b")
    case True
    let ?m = "max_by key x xs"
    have eq: "max_by key b (x # xs) = ?m"
      using True by simp
    from Cons [of x] obtain pre post where
      s: "x # xs = pre @ ?m # post" "\<forall>y \<in> set pre. key y < key ?m" "\<forall>y \<in> set post. key y \<le> key ?m"
      by blast
    from max_by_ge [of x xs key] have "key x \<le> key ?m" by simp
    with True have "key b < key ?m" by simp
    with s have "b # x # xs = (b # pre) @ ?m # post \<and> (\<forall>y \<in> set (b # pre). key y < key ?m) \<and>
        (\<forall>y \<in> set post. key y \<le> key ?m)"
      by simp
    then show ?thesis
      unfolding eq by (intro exI)
  next
    case False
    let ?m = "max_by key b xs"
    have eq: "max_by key b (x # xs) = ?m"
      using False by simp
    from Cons [of b] obtain pre post where
      s: "b # xs = pre @ ?m # post" "\<forall>y \<in> set pre. key y < key ?m" "\<forall>y \<in> set post. key y \<le> key ?m"
      by blast
    show ?thesis
    proof (cases pre)
      case Nil
      with s(1) have bm: "b = ?m" and xp: "xs = post"
        by (metis append_Nil list.inject)+
      from bm have kb: "key b = key ?m"
        by (rule arg_cong)
      have c1: "b # x # xs = [] @ ?m # (x # post)"
        using bm xp by (metis append_Nil)
      have c3: "\<forall>y \<in> set (x # post). key y \<le> key ?m"
        using False s(3) kb by auto
      from c1 c3 have "b # x # xs = [] @ ?m # (x # post) \<and> (\<forall>y \<in> set []. key y < key ?m) \<and>
        (\<forall>y \<in> set (x # post). key y \<le> key ?m)"
        by (metis empty_iff empty_set)
      then show ?thesis
        unfolding eq by (intro exI)
    next
      case (Cons b' pre')
      with s(1) have b': "b' = b" and xs: "xs = pre' @ ?m # post"
        by (metis append_Cons list.inject)+
      from s(2) Cons b' have lt: "key b < key ?m" and pre': "\<forall>y \<in> set pre'. key y < key ?m"
        by (metis list.set_intros(1), metis list.set_intros(2))
      have c1: "b # x # xs = (b # x # pre') @ ?m # post"
        using xs by (metis append_Cons)
      have c2: "\<forall>y \<in> set (b # x # pre'). key y < key ?m"
        using False lt pre' by auto
      from c1 c2 s(3) have "b # x # xs = (b # x # pre') @ ?m # post \<and>
         (\<forall>y \<in> set (b # x # pre'). key y < key ?m) \<and> (\<forall>y \<in> set post. key y \<le> key ?m)"
        by (intro conjI)
      then show ?thesis
        unfolding eq by (intro exI)
    qed
  qed
qed

lemma prompt_loop_first:
  "prompt_loop rp ds (line # rest) w =
     (if str_strip line = ''1'' then manual_choice rp ''INCLUDE'' ''manual_include'' ds (w\<lparr>stdin := rest\<rparr>)
      else if str_strip line = ''2'' then manual_choice rp ''EXCLUDE'' ''manual_exclude'' ds (w\<lparr>stdin := rest\<rparr>)
      else if str_strip line = ''3'' then highest_confidence ds (w\<lparr>stdin := rest\<rparr>)
      else if str_strip line = ''4'' then most_recent ds (w\<lparr>stdin := rest\<rparr>)
      else if str_strip line = ''5'' then
        (case for_each show_detail ds of Inl e \<Rightarrow> Inl e
         | Inr _ \<Rightarrow> prompt_loop rp ds rest (w\<lparr>stdin := rest\<rparr>))
      else prompt_loop rp ds rest (w\<lparr>stdin := rest\<rparr>))"
  by (simp add: Let_def)


text \<open>
  Lines that are none of the answers 1 to 5 change nothing.
\<close>

lemma prompt_loop_pass:
  "\<forall>l \<in> set skipped. str_strip l \<notin> {''1'', ''2'', ''3'', ''4'', ''5''} \<Longrightarrow>
   prompt_loop rp ds (skipped @ lines) w = prompt_loop rp ds lines w"
proof (induction skipped arbitrary: w)
  case Nil
  then show ?case by simp
next
  case (Cons l ls)
  then have "prompt_loop rp ds ((l # ls) @ lines) w =
      prompt_loop rp ds (ls @ lines) (w\<lparr>stdin := ls @ lines\<rparr>)"
    by (simp add: Let_def)
  also have "\<dots> = prompt_loop rp ds lines w"
    using Cons by (simp add: prompt_loop_stdin)
  finally show ?case .
qed

text \<open>
  A confidence that the resolver accepts is the number it compares.
\<close>

lemma confidence_reading:
  "confidence_is_num p \<Longrightarrow> dict_get p ''confidence'' (JNum 0) = JNum (confidence_key p)"
  by (simp add: confidence_is_num_def confidence_key_def split: jval.splits)

text \<open>
  Claim C5. When the answer that resolves the conflict is 3, whatever lines were read
  and passed over before it, and the resolver returns, the members split into those
  before the selected one, all of strictly lower confidence, the selected one, and those
  after it, none of higher confidence, where the confidence of a member is the number
  under its key \<^verbatim>\<open>confidence\<close>, or 0 without the key. The returned record reads as the
  selected member on every key but \<^verbatim>\<open>conflict_resolution\<close>, so its decision,
  confidence and reason are adopted verbatim, and the recorded method is
  \<open>highest_confidence\<close>. And the resolver does return when the members are screened
  records and no line passed over asks for the details.
\<close>

theorem highest_confidence_first_maximum:
  assumes "stdin w = skipped @ line # rest"
    and "\<forall>l \<in> set skipped. str_strip l \<notin> {''1'', ''2'', ''3'', ''4''}"
    and "str_strip line = ''3''"
  shows "(\<forall>r w'. resolve_screening_conflict rp g k w = Inr (r, w') \<longrightarrow>
           (\<exists>pre m post cm. map (heap w) g = pre @ m # post \<and>
              dict_get m ''confidence'' (JNum 0) = JNum cm \<and>
              (\<forall>p \<in> set pre. \<exists>c. dict_get p ''confidence'' (JNum 0) = JNum c \<and> c < cm) \<and>
              (\<forall>p \<in> set post. \<exists>c. dict_get p ''confidence'' (JNum 0) = JNum c \<and> c \<le> cm) \<and>
              (\<forall>key. key \<noteq> ''conflict_resolution'' \<longrightarrow> map_of (heap w' r) key = map_of m key) \<and>
              method_of (heap w' r) = Some (JStr ''highest_confidence'') \<and>
              stdin w' = rest)) \<and>
         (g \<noteq> [] \<and> (\<forall>a \<in> set g. screened_record (heap w a)) \<and>
          (\<forall>l \<in> set skipped. str_strip l \<noteq> ''5'') \<longrightarrow>
            (\<exists>r w'. resolve_screening_conflict rp g k w = Inr (r, w')))"
proof -
  let ?ds = "map (heap w) g"
  let ?w1 = "w\<lparr>stdin := rest\<rparr>"
  have selected: "\<exists>pre m post cm. map (heap w) g = pre @ m # post \<and>
              dict_get m ''confidence'' (JNum 0) = JNum cm \<and>
              (\<forall>p \<in> set pre. \<exists>c. dict_get p ''confidence'' (JNum 0) = JNum c \<and> c < cm) \<and>
              (\<forall>p \<in> set post. \<exists>c. dict_get p ''confidence'' (JNum 0) = JNum c \<and> c \<le> cm) \<and>
              (\<forall>key. key \<noteq> ''conflict_resolution'' \<longrightarrow> map_of (heap w' r) key = map_of m key) \<and>
              method_of (heap w' r) = Some (JStr ''highest_confidence'') \<and>
              stdin w' = rest"
    if run: "resolve_screening_conflict rp g k w = Inr (r, w')" for r w'
  proof -
    from run have "prompt_loop rp ?ds (skipped @ line # rest) w = Inr (r, w')"
      unfolding assms(1) [symmetric]
      by (auto simp: resolve_screening_conflict_def Let_def split: sum.splits)
    with assms(2) have "prompt_loop rp ?ds (line # rest) w = Inr (r, w')"
      by (rule prompt_loop_skip)
    then have hc: "highest_confidence ?ds ?w1 = Inr (r, w')"
      using assms(3) by (simp add: Let_def)
    then obtain first others where ds: "?ds = first # others"
      by (cases ?ds) (auto simp: highest_confidence_def)
    from hc have nums: "list_all confidence_is_num ?ds"
      unfolding ds by (auto simp: highest_confidence_def split: if_splits)
    let ?m = "max_by confidence_key first others"
    let ?d = "dict_set ''conflict_resolution''
                      (conflict_resolution ''highest_confidence'' (clock w (ticks w))
                         [(''selected_confidence'', dict_get ?m ''confidence'' JNull),
                          (''selected_from_query'', dict_get ?m ''source_query_description'' JNull)]
                         ?ds) ?m"
    from hc nums have res: "r = top w \<and> heap w' = (heap w)(top w := ?d) \<and> stdin w' = rest"
      unfolding ds [symmetric] highest_confidence_def
      by (auto simp: ds now_isoformat_def alloc_def Let_def split: if_splits option.splits)
    then have d: "heap w' r = ?d"
      by simp
    from max_by_split [of first others confidence_key] obtain pre post where
      s: "first # others = pre @ ?m # post" "\<forall>y \<in> set pre. confidence_key y < confidence_key ?m"
         "\<forall>y \<in> set post. confidence_key y \<le> confidence_key ?m"
      by blast
    have split: "?ds = pre @ ?m # post"
      using s(1) ds by simp
    have num: "p \<in> set ?ds \<Longrightarrow> dict_get p ''confidence'' (JNum 0) = JNum (confidence_key p)" for p
      using nums by (simp only: list_all_iff confidence_reading)
    have "?m \<in> set ?ds"
      unfolding split by simp
    then have c1: "dict_get ?m ''confidence'' (JNum 0) = JNum (confidence_key ?m)"
      by (rule num)
    have c2: "\<forall>p \<in> set pre. \<exists>c. dict_get p ''confidence'' (JNum 0) = JNum c \<and> c < confidence_key ?m"
    proof
      fix p assume p: "p \<in> set pre"
      then have "p \<in> set ?ds" unfolding split by simp
      from num [OF this] s(2) p
      show "\<exists>c. dict_get p ''confidence'' (JNum 0) = JNum c \<and> c < confidence_key ?m"
        by blast
    qed
    have c3: "\<forall>p \<in> set post. \<exists>c. dict_get p ''confidence'' (JNum 0) = JNum c \<and> c \<le> confidence_key ?m"
    proof
      fix p assume p: "p \<in> set post"
      then have "p \<in> set ?ds" unfolding split by simp
      from num [OF this] s(3) p
      show "\<exists>c. dict_get p ''confidence'' (JNum 0) = JNum c \<and> c \<le> confidence_key ?m"
        by blast
    qed
    have c4: "\<forall>key. key \<noteq> ''conflict_resolution'' \<longrightarrow> map_of (heap w' r) key = map_of ?m key"
      unfolding d by (simp add: map_of_dict_set)
    have c5: "method_of (heap w' r) = Some (JStr ''highest_confidence'')"
      unfolding d by (simp add: method_of_def map_of_dict_set conflict_resolution_def)
    from res have c6: "stdin w' = rest"
      by simp
    from split c1 c2 c3 c4 c5 c6 show ?thesis
      by blast
  qed
  have returns: "\<exists>r w'. resolve_screening_conflict rp g k w = Inr (r, w')"
    if ne: "g \<noteq> []" and scr: "\<forall>a \<in> set g. screened_record (heap w a)"
      and no5: "\<forall>l \<in> set skipped. str_strip l \<noteq> ''5''"
  proof -
    have ne': "?ds \<noteq> []" and scr': "\<forall>p \<in> set ?ds. screened_record p"
      using ne scr by auto
    have "show_conflict ?ds = Inr ()"
      using ne' scr' by (rule show_conflict_screened)
    then have "resolve_screening_conflict rp g k w = prompt_loop rp ?ds (skipped @ line # rest) w"
      by (simp add: resolve_screening_conflict_def Let_def assms(1))
    also have "\<dots> = prompt_loop rp ?ds (line # rest) w"
      by (rule prompt_loop_pass) (use assms(2) no5 in auto)
    also have "\<dots> = highest_confidence ?ds ?w1"
      using assms(3) by (simp add: Let_def)
    finally show ?thesis
      using highest_confidence_returns [OF ne' scr', of ?w1] by auto
  qed
  from selected returns show ?thesis
    by blast
qed


section \<open>Identity keys\<close>

lemma group_loop_reads:
  "group_loop h as pg noid = Inr res \<Longrightarrow> a \<in> set as \<Longrightarrow>
   \<exists>doi oid. read_identifiers (h a) = Inr (doi, oid)"
proof (induction as arbitrary: pg noid)
  case Nil
  then show ?case by simp
next
  case (Cons x xs)
  from Cons.prems(1) obtain doi oid where ids: "read_identifiers (h x) = Inr (doi, oid)"
    by (auto split: sum.splits)
  show ?case
  proof (cases "a = x")
    case True
    with ids show ?thesis by blast
  next
    case False
    with Cons.prems(2) have a: "a \<in> set xs" by simp
    from Cons.prems(1) ids obtain pg' noid' where "group_loop h xs pg' noid' = Inr res"
      by (auto split: sum.splits option.splits)
    from Cons.IH [OF this a] show ?thesis .
  qed
qed

lemma key_of_string_doi:
  assumes "read_identifiers d = Inr (doi, oid)" and "dict_get d ''doi'' (JStr []) = JStr s"
  shows "key_of d = primary_identifier (normalized_doi s) oid"
  using assms
  by (auto simp: key_of_def read_identifiers_def py_strip_def normalized_doi_def split: sum.splits)

lemma primary_identifier_doi:
  "doi \<noteq> [] \<Longrightarrow> primary_identifier doi oid = Some (''doi:'' @ doi)"
  by (simp add: primary_identifier_def)

lemma primary_identifier_differ:
  "doi \<noteq> doi' \<Longrightarrow> primary_identifier doi oid \<noteq> primary_identifier doi' oid'"
  by (auto simp: primary_identifier_def)

lemma in_identity_group:
  assumes "a \<in> set papers" and "key_of (h a) = Some k"
  shows "(k, members_of h papers k) \<in> set (identity_groups h papers)"
    and "a \<in> set (members_of h papers k)"
proof -
  from assms have "k \<in> set (identity_keys h papers)"
    unfolding set_identity_keys by blast
  then show "(k, members_of h papers k) \<in> set (identity_groups h papers)"
    by (simp add: identity_groups_def)
  from assms show "a \<in> set (members_of h papers k)"
    by (simp add: members_of_def)
qed

lemma identity_group_members:
  assumes "(k, g) \<in> set (identity_groups h papers)" and "a \<in> set g"
  shows "key_of (h a) = Some k"
  using assms by (auto simp: identity_groups_def members_of_def)

text \<open>
  Claim C2, as amended. The key is built from the DOI stripped and lowercased, with no
  URL prefix removed. Two records of the input whose DOIs are equal and non-empty after
  that normalization get the key \<open>doi:\<close> followed by the DOI and are members of one
  group of \<^verbatim>\<open>paper_groups\<close>; two records whose normalized DOIs differ get different keys
  and share no group.
\<close>

theorem doi_identity_without_url_stripping:
  assumes "group_loop h papers [] [] = Inr (paper_groups, no_identifier_papers)"
    and "a \<in> set papers" and "b \<in> set papers"
    and "dict_get (h a) ''doi'' (JStr []) = JStr s"
    and "dict_get (h b) ''doi'' (JStr []) = JStr t"
  shows "(normalized_doi s = normalized_doi t \<and> normalized_doi s \<noteq> [] \<longrightarrow>
            key_of (h a) = Some (''doi:'' @ normalized_doi s) \<and>
            key_of (h b) = Some (''doi:'' @ normalized_doi s) \<and>
            (\<exists>g. (''doi:'' @ normalized_doi s, g) \<in> set paper_groups \<and> a \<in> set g \<and> b \<in> set g)) \<and>
         (normalized_doi s \<noteq> normalized_doi t \<longrightarrow>
            key_of (h a) \<noteq> key_of (h b) \<and>
            (\<forall>kg \<in> set paper_groups. \<not> (a \<in> set (snd kg) \<and> b \<in> set (snd kg))))"
proof -
  from group_loop_reads [OF assms(1,2)] obtain da oa where ra: "read_identifiers (h a) = Inr (da, oa)"
    by blast
  from group_loop_reads [OF assms(1,3)] obtain db ob where rb: "read_identifiers (h b) = Inr (db, ob)"
    by blast
  have ka: "key_of (h a) = primary_identifier (normalized_doi s) oa"
    using ra assms(4) by (rule key_of_string_doi)
  have kb: "key_of (h b) = primary_identifier (normalized_doi t) ob"
    using rb assms(5) by (rule key_of_string_doi)
  have pg: "paper_groups = identity_groups h papers"
    using group_loop_identity_groups [OF assms(1)] by simp
  show ?thesis
  proof (intro conjI impI)
    assume eq: "normalized_doi s = normalized_doi t \<and> normalized_doi s \<noteq> []"
    let ?k = "''doi:'' @ normalized_doi s"
    from eq have nes: "normalized_doi s \<noteq> []" and net: "normalized_doi t \<noteq> []"
      and st: "normalized_doi t = normalized_doi s"
      by auto
    show a: "key_of (h a) = Some ?k"
      unfolding ka using nes by (rule primary_identifier_doi)
    show b: "key_of (h b) = Some ?k"
      unfolding kb st using nes by (rule primary_identifier_doi)
    from in_identity_group [where h = h, OF assms(2) a]
      in_identity_group(2) [where h = h, OF assms(3) b]
    show "\<exists>g. (?k, g) \<in> set paper_groups \<and> a \<in> set g \<and> b \<in> set g"
      unfolding pg by blast
  next
    assume ne: "normalized_doi s \<noteq> normalized_doi t"
    then show diff: "key_of (h a) \<noteq> key_of (h b)"
      unfolding ka kb by (rule primary_identifier_differ)
    show "\<forall>kg \<in> set paper_groups. \<not> (a \<in> set (snd kg) \<and> b \<in> set (snd kg))"
    proof (intro ballI notI)
      fix kg assume kg: "kg \<in> set paper_groups" and both: "a \<in> set (snd kg) \<and> b \<in> set (snd kg)"
      obtain k g where "kg = (k, g)" by (cases kg)
      with kg both pg have "key_of (h a) = Some k" "key_of (h b) = Some k"
        using identity_group_members by auto
      with diff show False by simp
    qed
  qed
qed

lemmas group_defs = identity_groups_def identity_keys_def first_occurrences_def map_filter_def
  key_of_def members_of_def no_identity_def

text \<open>
  Claim C2 as stated fails: a DOI in URL form and the bare DOI agree once the scheme and
  host are stripped, as the specification has it, but the code gives the two records
  different keys and different groups.
\<close>

theorem url_form_doi_counterexample:
  "spec_normalized_doi ''https://doi.org/10.1/x'' = spec_normalized_doi ''10.1/x'' \<and>
   spec_normalized_doi ''10.1/x'' = ''10.1/x'' \<and>
   key_of paper_url = Some ''doi:https://doi.org/10.1/x'' \<and>
   key_of paper_bare = Some ''doi:10.1/x'' \<and>
   identity_groups (heap (world_of [paper_url, paper_bare] [] ''t'')) [0, 1] =
     [(''doi:https://doi.org/10.1/x'', [0]), (''doi:10.1/x'', [1])]"
  by (simp add: spec_normalized_doi_def spec_strip_url_prefix_def drop_scheme_def group_defs
      eval_defs paper_url_def paper_bare_def)

section \<open>Records without identifier\<close>

lemma str_lower_Nil_iff [simp]: "str_lower s = [] \<longleftrightarrow> s = []"
  by (simp add: str_lower_def)

lemma str_lower_Nil_iff2 [simp]: "[] = str_lower s \<longleftrightarrow> s = []"
  by (auto simp: str_lower_def)

lemma str_strip_Nil [simp]: "str_strip [] = []"
  by (simp add: str_strip_def)

lemma no_identifier_reads: "no_identifier d \<Longrightarrow> read_identifiers d = Inr ([], [])"
  by (auto simp: no_identifier_def blank_field_def read_identifiers_def py_strip_def dict_get_def
      str_lower_def split: option.splits jval.splits)

lemma no_identifier_key: "no_identifier d \<Longrightarrow> key_of d = None"
  by (simp add: key_of_def no_identifier_reads primary_identifier_def)

lemma key_none_no_identifier:
  assumes "read_identifiers d = Inr (doi, oid)" and "key_of d = None"
  shows "no_identifier d"
proof -
  from assms have e: "doi = []" "oid = []"
    by (auto simp: key_of_def primary_identifier_def split: if_splits)
  from assms(1) obtain s t where
    s: "dict_get d ''doi'' (JStr []) = JStr s" "doi = str_lower (str_strip s)" and
    t: "dict_get d ''openalex_id'' (JStr []) = JStr t" "oid = str_strip t"
    by (auto simp: read_identifiers_def py_strip_def split: sum.splits jval.splits)
  from s e have "blank_field d ''doi''"
    by (auto simp: blank_field_def dict_get_def split: option.splits)
  moreover from t e have "blank_field d ''openalex_id''"
    by (auto simp: blank_field_def dict_get_def split: option.splits)
  ultimately show ?thesis
    by (simp add: no_identifier_def)
qed

lemma dedup_reads:
  assumes "deduplicate_with_conflict_resolution rp papers w = Inr res" and "a \<in> set papers"
  shows "\<exists>doi oid. read_identifiers (heap w a) = Inr (doi, oid)"
proof -
  from assms have "papers \<noteq> []" by auto
  with assms(1) obtain r where "group_loop (heap w) papers [] [] = Inr r"
    by (auto simp: deduplicate_with_conflict_resolution_def split: sum.splits)
  from group_loop_reads [OF this assms(2)] show ?thesis .
qed

text \<open>
  Claim C7. A record with no DOI and no OpenAlex id has no identity key. Whenever the
  merge returns, the output after the groups' records is exactly the list of the
  records without identifier, in input order, one output per input; none of them is a
  member of a group, and each is unchanged in the store.
\<close>

theorem no_identifier_papers_pass_through:
  assumes "deduplicate_with_conflict_resolution rp papers w = Inr ((out, dr, cr), w')"
    and "\<forall>a \<in> set papers. a < top w"
  shows "(\<forall>d. no_identifier d \<longrightarrow> key_of d = None) \<and>
         length out = length (identity_groups (heap w) papers) +
                      length (filter (\<lambda>a. no_identifier (heap w a)) papers) \<and>
         drop (length (identity_groups (heap w) papers)) out =
           filter (\<lambda>a. no_identifier (heap w a)) papers \<and>
         (\<forall>a \<in> set papers. no_identifier (heap w a) \<longrightarrow>
            heap w' a = heap w a \<and>
            (\<forall>kg \<in> set (identity_groups (heap w) papers). a \<notin> set (snd kg)))"
proof -
  let ?gs = "identity_groups (heap w) papers"
  have same: "no_identity (heap w) papers = filter (\<lambda>a. no_identifier (heap w a)) papers"
    unfolding no_identity_def
  proof (rule filter_cong [OF refl])
    fix a assume "a \<in> set papers"
    from dedup_reads [OF assms(1) this] obtain doi oid where
      "read_identifiers (heap w a) = Inr (doi, oid)" by blast
    then show "(key_of (heap w a) = None) = no_identifier (heap w a)"
      using key_none_no_identifier no_identifier_key by blast
  qed
  note post = dedup_post [OF assms]
  from post obtain outs where
    out: "out = outs @ no_identity (heap w) papers" and
    all: "list_all2 (\<lambda>g r. emitted (heap w) (top w) g r (heap w')) (map snd ?gs) outs"
    by blast
  from all have len: "length outs = length ?gs"
    by (auto dest: list_all2_lengthD)
  from post have frame: "\<forall>a. a < top w \<and> a \<notin> group_refs ?gs \<longrightarrow> heap w' a = heap w a"
    by blast
  have c1: "\<forall>d. no_identifier d \<longrightarrow> key_of d = None"
    using no_identifier_key by blast
  have c2: "length out = length ?gs + length (filter (\<lambda>a. no_identifier (heap w a)) papers)"
    using out len same by simp
  have c3: "drop (length ?gs) out = filter (\<lambda>a. no_identifier (heap w a)) papers"
    using out len same by simp
  have c4: "\<forall>a \<in> set papers. no_identifier (heap w a) \<longrightarrow>
            heap w' a = heap w a \<and> (\<forall>kg \<in> set ?gs. a \<notin> set (snd kg))"
  proof (intro ballI impI)
    fix a assume a: "a \<in> set papers" and n: "no_identifier (heap w a)"
    then have k: "key_of (heap w a) = None"
      by (simp add: no_identifier_key)
    then have notin: "a \<notin> group_refs ?gs"
      by (simp add: group_refs_identity_groups)
    with a assms(2) frame have "heap w' a = heap w a"
      by blast
    moreover from notin have "\<forall>kg \<in> set ?gs. a \<notin> set (snd kg)"
      by (auto simp: group_refs_def)
    ultimately show "heap w' a = heap w a \<and> (\<forall>kg \<in> set ?gs. a \<notin> set (snd kg))"
      by simp
  qed
  from c1 c2 c3 c4 show ?thesis
    by (intro conjI)
qed

section \<open>A conflict without a collaborator\<close>

text \<open>
  Lines that resolve nothing leave the resolver without a result.
\<close>

lemma prompt_loop_unresolved:
  "\<forall>l \<in> set lines. str_strip l \<notin> {''1'', ''2'', ''3'', ''4''} \<Longrightarrow>
   \<exists>e. prompt_loop rp ds lines w = Inl e"
proof (induction lines arbitrary: w)
  case Nil
  then show ?case by simp
next
  case (Cons l ls)
  then have "\<exists>e. prompt_loop rp ds ls (w\<lparr>stdin := ls\<rparr>) = Inl e"
    by simp
  with Cons.prems show ?case
    by (auto simp: Let_def split: sum.splits)
qed

lemma prompt_loop_invalid:
  "\<forall>l \<in> set lines. str_strip l \<notin> {''1'', ''2'', ''3'', ''4'', ''5''} \<Longrightarrow>
   prompt_loop rp ds lines w = Inl EOFError"
  by (induction lines arbitrary: w) (simp_all add: Let_def)

text \<open>
  The second loop on a prefix of the input: either every answer it used lies in the
  prefix, and the run is the same, or the prefix runs out at a prompt.
\<close>

lemma process_loop_prefix:
  "process_loop rp gs up dr cr w = Inr (up', dr', cr', w') \<Longrightarrow> stdin w = xs @ ys \<Longrightarrow>
   (\<exists>zs. stdin w' = zs @ ys \<and>
      process_loop rp gs up dr cr (w\<lparr>stdin := xs\<rparr>) = Inr (up', dr', cr', w'\<lparr>stdin := zs\<rparr>)) \<or>
   process_loop rp gs up dr cr (w\<lparr>stdin := xs\<rparr>) = Inl EOFError"
proof (induction gs arbitrary: up dr cr w xs)
  case Nil
  then show ?case by auto
next
  case (Cons kg gs)
  obtain k g where kg: "kg = (k, g)" by (cases kg)
  note run = Cons.prems(1) [unfolded kg]
  show ?case
  proof (cases "length g = 1")
    case True
    with run have "process_loop rp gs (up @ [hd g]) dr cr w = Inr (up', dr', cr', w')"
      by simp
    from Cons.IH [OF this Cons.prems(2)] True show ?thesis
      by (simp add: kg)
  next
    case False
    from run False obtain decisions where
      ud: "unique_decisions (decisions_of (map (heap w) g)) = Inr decisions"
      by (auto simp: Let_def split: sum.splits)
    show ?thesis
    proof (cases "card decisions = 1")
      case True
      with run False ud obtain rep tl where g: "g = rep # tl"
        by (cases g) (auto simp: Let_def)
      let ?w1 = "w\<lparr>heap := (heap w)(rep := dict_set ''duplicate_sources''
          (JList (map duplicate_source (map (heap w) g))) (heap w rep))\<rparr>"
      from run False ud True g have
        "process_loop rp gs (up @ [rep]) (dr + (int (length g) - 1)) cr ?w1 = Inr (up', dr', cr', w')"
        by (simp add: Let_def)
      moreover have "stdin ?w1 = xs @ ys"
        using Cons.prems(2) by simp
      ultimately have ih:
        "(\<exists>zs. stdin w' = zs @ ys \<and>
            process_loop rp gs (up @ [rep]) (dr + (int (length g) - 1)) cr (?w1\<lparr>stdin := xs\<rparr>) =
              Inr (up', dr', cr', w'\<lparr>stdin := zs\<rparr>)) \<or>
         process_loop rp gs (up @ [rep]) (dr + (int (length g) - 1)) cr (?w1\<lparr>stdin := xs\<rparr>) =
           Inl EOFError"
        by (rule Cons.IH)
      have weq: "(w\<lparr>stdin := xs\<rparr>)\<lparr>heap := (heap w)(rep := dict_set ''duplicate_sources''
          (JList (map duplicate_source (map (heap w) g))) (heap w rep))\<rparr> = ?w1\<lparr>stdin := xs\<rparr>"
        by simp
      have "process_loop rp ((k, g) # gs) up dr cr (w\<lparr>stdin := xs\<rparr>) =
          process_loop rp gs (up @ [rep]) (dr + (int (length g) - 1)) cr
            ((w\<lparr>stdin := xs\<rparr>)\<lparr>heap := (heap w)(rep := dict_set ''duplicate_sources''
          (JList (map duplicate_source (map (heap w) g))) (heap w rep))\<rparr>)"
        using False ud True by (simp add: g Let_def)
      then show ?thesis
        unfolding kg weq using ih by simp
    next
      case c: False
      from run False ud c obtain r w1 where
        res: "resolve_screening_conflict rp g k w = Inr (r, w1)" and
        cont: "process_loop rp gs (up @ [r]) (dr + (int (length g) - 1)) (cr + 1) w1 =
                 Inr (up', dr', cr', w')"
        by (auto simp: Let_def split: sum.splits)
      from res have shown: "show_conflict (map (heap w) g) = Inr ()"
        and pl: "prompt_loop rp (map (heap w) g) (xs @ ys) w = Inr (r, w1)"
        unfolding Cons.prems(2) [symmetric]
        by (auto simp: resolve_screening_conflict_def Let_def split: sum.splits)
      have short: "resolve_screening_conflict rp g k (w\<lparr>stdin := xs\<rparr>) =
          prompt_loop rp (map (heap w) g) xs w"
        using shown by (simp add: resolve_screening_conflict_def Let_def prompt_loop_stdin)
      have step: "process_loop rp ((k, g) # gs) up dr cr (w\<lparr>stdin := xs\<rparr>) =
          (case prompt_loop rp (map (heap w) g) xs w of
             Inl e \<Rightarrow> Inl e
           | Inr (r, w1) \<Rightarrow> process_loop rp gs (up @ [r]) (dr + (int (length g) - 1)) (cr + 1) w1)"
        using False ud c by (simp add: Let_def short)
      from prompt_loop_prefix [OF pl] show ?thesis
      proof
        assume "\<exists>zs. stdin w1 = zs @ ys \<and>
          prompt_loop rp (map (heap w) g) xs w = Inr (r, w1\<lparr>stdin := zs\<rparr>)"
        then obtain zs where zs: "stdin w1 = zs @ ys"
          "prompt_loop rp (map (heap w) g) xs w = Inr (r, w1\<lparr>stdin := zs\<rparr>)"
          by blast
        from Cons.IH [OF cont zs(1)] show ?thesis
          unfolding kg step zs(2) by simp
      next
        assume "prompt_loop rp (map (heap w) g) xs w = Inl EOFError"
        then show ?thesis
          unfolding kg step by simp
      qed
    qed
  qed
qed

lemma same_input: "w\<lparr>stdin := stdin w @ extra, stdin := stdin w\<rparr> = w"
  by simp

text \<open>
  The second loop over a list of groups in two parts.
\<close>

lemma process_loop_append:
  "process_loop rp (gs @ hs) up dr cr w =
     (case process_loop rp gs up dr cr w of
        Inl e \<Rightarrow> Inl e
      | Inr (up1, dr1, cr1, w1) \<Rightarrow> process_loop rp hs up1 dr1 cr1 w1)"
proof (induction gs arbitrary: up dr cr w)
  case Nil
  then show ?case by simp
next
  case (Cons kg gs)
  obtain k g where kg: "kg = (k, g)" by (cases kg)
  show ?case
    unfolding kg by (simp add: Cons.IH Let_def split: sum.splits list.splits prod.splits)
qed

text \<open>
  Claim C3, as amended. With no answer left on the input, the resolver returns nothing
  for a conflicting group: it raises, and \<open>EOFError\<close> once the conflict has been displayed
  and the lines left, if any, are invalid answers. The merge does not catch the exception:
  when the second loop reaches a conflicting group and the resolver raises there, the
  merge raises the same exception and returns no result for any group. So it does when
  the input has fewer lines than there are conflicting groups, and then with \<open>EOFError\<close>
  whenever the same merge completes with further lines appended to the input; in general
  it raises \<open>EOFError\<close> whenever the merge on a longer input reads beyond the lines of the
  shorter one. No decision is chosen by default.
\<close>

theorem no_collaborator_aborts_merge:
  assumes "\<forall>a \<in> set papers. a < top w"
  shows "((\<forall>l \<in> set (stdin w). str_strip l \<notin> {''1'', ''2'', ''3'', ''4''}) \<longrightarrow>
            (\<exists>e. resolve_screening_conflict rp g k w = Inl e)) \<and>
         ((\<forall>l \<in> set (stdin w). str_strip l \<notin> {''1'', ''2'', ''3'', ''4'', ''5''}) \<and>
            show_conflict (map (heap w) g) = Inr () \<longrightarrow>
            resolve_screening_conflict rp g k w = Inl EOFError) \<and>
         (length (stdin w) < length (filter (\<lambda>g. decisions_differ (map (heap w) g))
                                (map snd (identity_groups (heap w) papers))) \<longrightarrow>
            (\<exists>e. deduplicate_with_conflict_resolution rp papers w = Inl e) \<and>
            (\<forall>extra res.
               deduplicate_with_conflict_resolution rp papers (w\<lparr>stdin := stdin w @ extra\<rparr>) = Inr res \<longrightarrow>
               deduplicate_with_conflict_resolution rp papers w = Inl EOFError)) \<and>
         (\<forall>extra out dr cr w'.
            deduplicate_with_conflict_resolution rp papers (w\<lparr>stdin := stdin w @ extra\<rparr>) =
              Inr ((out, dr, cr), w') \<and> length (stdin w') < length extra \<longrightarrow>
            deduplicate_with_conflict_resolution rp papers w = Inl EOFError) \<and>
         (\<forall>pre k' g' rest noid up dr cr w1 e.
            group_loop (heap w) papers [] [] = Inr (pre @ (k', g') # rest, noid) \<and>
            process_loop rp pre [] 0 0 w = Inr (up, dr, cr, w1) \<and>
            1 < length g' \<and> list_all hashable (decisions_of (map (heap w1) g')) \<and>
            decisions_differ (map (heap w1) g') \<and>
            resolve_screening_conflict rp g' k' w1 = Inl e \<longrightarrow>
            deduplicate_with_conflict_resolution rp papers w = Inl e)"
proof -
  let ?gs = "map snd (identity_groups (heap w) papers)"
  let ?n = "length (filter (\<lambda>g. decisions_differ (map (heap w) g)) ?gs)"
  have ne: "\<forall>g \<in> set ?gs. g \<noteq> []"
    using identity_group_nonempty by blast
  have conf: "filter (conflicting (heap w)) ?gs = filter (\<lambda>g. decisions_differ (map (heap w) g)) ?gs"
    by (rule filter_cong [OF refl]) (use ne conflicting_iff in blast)
  have c1: "\<exists>e. resolve_screening_conflict rp g k w = Inl e"
    if "\<forall>l \<in> set (stdin w). str_strip l \<notin> {''1'', ''2'', ''3'', ''4''}"
    using prompt_loop_unresolved [OF that, of rp "map (heap w) g" w]
    by (auto simp: resolve_screening_conflict_def Let_def split: sum.splits)
  have c2: "resolve_screening_conflict rp g k w = Inl EOFError"
    if "\<forall>l \<in> set (stdin w). str_strip l \<notin> {''1'', ''2'', ''3'', ''4'', ''5''}"
      and "show_conflict (map (heap w) g) = Inr ()"
    using prompt_loop_invalid [OF that(1), of rp "map (heap w) g" w] that(2)
    by (simp add: resolve_screening_conflict_def Let_def)
  have c4: "deduplicate_with_conflict_resolution rp papers w = Inl EOFError"
    if run: "deduplicate_with_conflict_resolution rp papers (w\<lparr>stdin := stdin w @ extra\<rparr>) =
        Inr ((out, dr, cr), w')"
      and short: "length (stdin w') < length extra"
    for extra out dr cr w'
  proof -
    let ?W = "w\<lparr>stdin := stdin w @ extra\<rparr>"
    from dedup_unfold [OF run] obtain outs where
      pl: "process_loop rp (identity_groups (heap w) papers) [] 0 0 ?W = Inr (outs, dr, cr, w')"
      by auto
    have "stdin ?W = stdin w @ extra"
      by simp
    from process_loop_prefix [OF pl this] short
    have "process_loop rp (identity_groups (heap w) papers) [] 0 0 (?W\<lparr>stdin := stdin w\<rparr>) =
        Inl EOFError"
      by auto
    then have eof: "process_loop rp (identity_groups (heap w) papers) [] 0 0 w = Inl EOFError"
      unfolding same_input .
    have papers: "papers \<noteq> []"
      using run short by (auto simp: deduplicate_with_conflict_resolution_def)
    with run obtain r where gl: "group_loop (heap w) papers [] [] = Inr r"
      by (auto simp: deduplicate_with_conflict_resolution_def split: sum.splits)
    obtain pg noid where r: "r = (pg, noid)" by (cases r)
    from group_loop_identity_groups [OF gl [unfolded r]] have "pg = identity_groups (heap w) papers"
      by simp
    with gl r eof papers show ?thesis
      by (simp add: deduplicate_with_conflict_resolution_def)
  qed
  have c3a: "\<exists>e. deduplicate_with_conflict_resolution rp papers w = Inl e" if few: "length (stdin w) < ?n"
  proof (cases "deduplicate_with_conflict_resolution rp papers w")
    case (Inl e)
    then show ?thesis by blast
  next
    case (Inr res)
    obtain out dr cr w' where res: "res = ((out, dr, cr), w')"
      by (metis prod.exhaust)
    note post = dedup_post [OF Inr [unfolded res] assms]
    from post have "cr = int (length (filter (conflicting (heap w)) ?gs))"
      by simp
    moreover from post have "int (length (stdin w')) + cr \<le> int (length (stdin w))"
      by simp
    ultimately show ?thesis
      using few unfolding conf by simp
  qed
  have c3b: "deduplicate_with_conflict_resolution rp papers w = Inl EOFError"
    if few: "length (stdin w) < ?n"
      and run: "deduplicate_with_conflict_resolution rp papers (w\<lparr>stdin := stdin w @ extra\<rparr>) = Inr res"
    for extra res
  proof -
    obtain out dr cr w' where res: "res = ((out, dr, cr), w')"
      by (metis prod.exhaust)
    have valid: "\<forall>a \<in> set papers. a < top (w\<lparr>stdin := stdin w @ extra\<rparr>)"
      using assms by simp
    note post = dedup_post [OF run [unfolded res] valid]
    from post have "cr = int (length (filter (conflicting (heap w)) ?gs))"
      by simp
    moreover from post have "int (length (stdin w')) + cr \<le> int (length (stdin w)) + int (length extra)"
      by simp
    ultimately have "length (stdin w') < length extra"
      using few unfolding conf by simp
    with run [unfolded res] show ?thesis
      by (rule c4)
  qed
  have c5: "deduplicate_with_conflict_resolution rp papers w = Inl e"
    if gl: "group_loop (heap w) papers [] [] = Inr (pre @ (k, g) # rest, noid)"
      and reached: "process_loop rp pre [] 0 0 w = Inr (up, dr, cr, w1)"
      and len: "1 < length g"
      and hashable: "list_all hashable (decisions_of (map (heap w1) g))"
      and differ: "decisions_differ (map (heap w1) g)"
      and raised: "resolve_screening_conflict rp g k w1 = Inl e"
    for pre k g rest noid up dr cr w1 e
  proof -
    from gl have papers: "papers \<noteq> []"
      by auto
    from len have "map (heap w1) g \<noteq> []"
      by auto
    with differ have "\<not> unanimous (map (heap w1) g)"
      by (simp add: unanimous_iff)
    then have "card (set (decisions_of (map (heap w1) g))) \<noteq> 1"
      by (simp add: unanimous_def)
    with len hashable raised have "process_loop rp ((k, g) # rest) up dr cr w1 = Inl e"
      by (simp add: unique_decisions_def Let_def)
    with reached have "process_loop rp (pre @ (k, g) # rest) [] 0 0 w = Inl e"
      by (simp add: process_loop_append)
    with gl papers show ?thesis
      by (simp add: deduplicate_with_conflict_resolution_def)
  qed
  from c1 c2 c3a c3b c4 c5 show ?thesis
    by blast
qed

text \<open>
  Claim C3 as stated fails: with a conflicting group, a second group that needs no
  resolution and no input, the merge raises and returns no result for either group.
\<close>

theorem no_collaborator_counterexample:
  "deduplicate_with_conflict_resolution decisions_text [0, 1, 2]
     (world_of [paper_y1, paper_y2, paper_z] [] ''2025-01-11T10:00:00'') = Inl EOFError"
  by (simp add: eval_defs paper_y1_def paper_y2_def paper_z_def)

section \<open>Records without a decision\<close>

text \<open>
  Claim C8 fails on the code. A record without the key \<^verbatim>\<open>decision\<close> is read as UNKNOWN
  by the conflict test and counts as a conflict, and option 1 resolves it; but when
  option 3 or option 4 selects that record, line 276 (line 296) subscripts
  \<^verbatim>\<open>resolved_paper['decision']\<close> and the merge raises \<open>KeyError\<close>.
\<close>

theorem missing_decision_key_error:
  "deduplicate_with_conflict_resolution decisions_text [0, 1]
     (world_of [paper_undecided, paper_y2] [''3''] ''2025-01-11T10:00:00'') = Inl KeyError \<and>
   deduplicate_with_conflict_resolution decisions_text [0, 1]
     (world_of [paper_y2, paper_undecided] [''4''] ''2025-01-11T10:00:00'') = Inl KeyError \<and>
   merge_summary (deduplicate_with_conflict_resolution decisions_text [0, 1]
     (world_of [paper_undecided, paper_y2] [''1''] ''2025-01-11T10:00:00'')) = Some (1, 1)"
  by (simp add: eval_defs paper_undecided_def paper_y2_def)

section \<open>Two runs over the same input\<close>

lemma erase_dict_set:
  "erase_timestamp (dict_set k v d) =
     dict_set k (if k = ''conflict_resolution'' then erase_block v else v) (erase_timestamp d)"
  by (induction d) (auto simp: erase_timestamp_def)

lemma erase_block_conflict_resolution:
  "erase_block (conflict_resolution m ts sel ds) = erase_block (conflict_resolution m ts' sel ds)"
  by (simp add: erase_block_def conflict_resolution_def)

lemma erase_resolved:
  "erase_timestamp (dict_set ''conflict_resolution'' (conflict_resolution m ts sel ds) d) =
   erase_timestamp (dict_set ''conflict_resolution'' (conflict_resolution m ts' sel ds) d)"
  by (simp add: erase_dict_set erase_block_conflict_resolution [of m ts sel ds ts'])

text \<open>Storing two records that agree up to the timestamp at the first free address.\<close>

lemma same_but_clock_alloc:
  assumes "same_but_clock t w1 w2" and "erase_timestamp d1 = erase_timestamp d2"
  shows "same_but_clock t
           (w1\<lparr>ticks := Suc (ticks w1), heap := (heap w1)(top w1 := d1), top := Suc (top w1)\<rparr>)
           (w2\<lparr>ticks := Suc (ticks w2), heap := (heap w2)(top w2 := d2), top := Suc (top w2)\<rparr>)"
  using assms by (auto simp: same_but_clock_def)

lemma same_but_clock_stdin:
  "same_but_clock t w1 w2 \<Longrightarrow> same_but_clock t (w1\<lparr>stdin := l\<rparr>) (w2\<lparr>stdin := l\<rparr>)"
  by (simp add: same_but_clock_def)

lemma manual_choice_sim:
  assumes "manual_choice rp dec meth ds w1 = Inr (r, w1')" and "same_but_clock t w1 w2"
  shows "\<exists>w2'. manual_choice rp dec meth ds w2 = Inr (r, w2') \<and> same_but_clock t w1' w2'"
proof -
  from assms(1) obtain first rest where ds: "ds = first # rest"
    by (cases ds) (auto simp: manual_choice_def)
  let ?inner = "dict_set ''reason'' (JStr (''Manual conflict resolution: User chose to '' @ dec @
                       '' (had conflicts: '' @
                       rp (JList (map (\<lambda>p. dict_get p ''decision'' JNull) ds)) @ '')''))
         (dict_set ''confidence'' (JNum 1) (dict_set ''decision'' (JStr dec) first))"
  let ?d = "\<lambda>ts. dict_set ''conflict_resolution'' (conflict_resolution meth ts [] ds) ?inner"
  let ?w' = "\<lambda>w. w\<lparr>ticks := Suc (ticks w), heap := (heap w)(top w := ?d (clock w (ticks w))),
      top := Suc (top w)\<rparr>"
  have run: "manual_choice rp dec meth ds w = Inr (top w, ?w' w)" for w
    by (simp add: manual_choice_def ds now_isoformat_def alloc_def)
  from assms(1) run [of w1] have r: "r = top w1" "w1' = ?w' w1"
    by auto
  have "same_but_clock t (?w' w1) (?w' w2)"
    using assms(2) by (rule same_but_clock_alloc) (rule erase_resolved)
  moreover from assms(2) have "top w2 = top w1"
    by (simp add: same_but_clock_def)
  ultimately show ?thesis
    using run [of w2] r by auto
qed

lemma highest_confidence_sim:
  assumes "highest_confidence ds w1 = Inr (r, w1')" and "same_but_clock t w1 w2"
  shows "\<exists>w2'. highest_confidence ds w2 = Inr (r, w2') \<and> same_but_clock t w1' w2'"
proof -
  from assms(1) obtain first rest where ds: "ds = first # rest"
    by (cases ds) (auto simp: highest_confidence_def)
  from assms(1) have nums: "list_all confidence_is_num ds"
    unfolding ds by (auto simp: highest_confidence_def split: if_splits)
  let ?m = "max_by confidence_key first rest"
  let ?d = "\<lambda>ts. dict_set ''conflict_resolution''
                    (conflict_resolution ''highest_confidence'' ts
                       [(''selected_confidence'', dict_get ?m ''confidence'' JNull),
                        (''selected_from_query'', dict_get ?m ''source_query_description'' JNull)]
                       ds) ?m"
  let ?w' = "\<lambda>w. w\<lparr>ticks := Suc (ticks w), heap := (heap w)(top w := ?d (clock w (ticks w))),
      top := Suc (top w)\<rparr>"
  have run: "highest_confidence ds w =
      (case map_of ?m ''decision'' of None \<Rightarrow> Inl KeyError | Some _ \<Rightarrow> Inr (top w, ?w' w))" for w
    using nums unfolding ds [symmetric] highest_confidence_def
    by (simp add: ds now_isoformat_def alloc_def map_of_dict_set Let_def split: option.splits)
  from assms(1) run [of w1] obtain v where v: "map_of ?m ''decision'' = Some v"
    by (auto split: option.splits)
  with assms(1) run [of w1] have r: "r = top w1" "w1' = ?w' w1"
    by auto
  have "same_but_clock t (?w' w1) (?w' w2)"
    using assms(2) by (rule same_but_clock_alloc) (rule erase_resolved)
  moreover from assms(2) have "top w2 = top w1"
    by (simp add: same_but_clock_def)
  ultimately show ?thesis
    using run [of w2] r v by auto
qed

lemma most_recent_sim:
  assumes "most_recent ds w1 = Inr (r, w1')" and "same_but_clock t w1 w2"
  shows "\<exists>w2'. most_recent ds w2 = Inr (r, w2') \<and> same_but_clock t w1' w2'"
proof -
  from assms(1) have ne: "ds \<noteq> []"
    by (cases ds) (auto simp: most_recent_def)
  let ?m = "last ds"
  let ?d = "\<lambda>ts. dict_set ''conflict_resolution''
                  (conflict_resolution ''most_recent'' ts
                     [(''selected_from_query'', dict_get ?m ''source_query_description'' JNull)]
                     ds) ?m"
  let ?w' = "\<lambda>w. w\<lparr>ticks := Suc (ticks w), heap := (heap w)(top w := ?d (clock w (ticks w))),
      top := Suc (top w)\<rparr>"
  have run: "most_recent ds w =
      (case map_of ?m ''decision'' of None \<Rightarrow> Inl KeyError | Some _ \<Rightarrow> Inr (top w, ?w' w))" for w
    using ne
    by (simp add: most_recent_def list.case_eq_if now_isoformat_def alloc_def map_of_dict_set
        Let_def split: option.splits)
  from assms(1) run [of w1] obtain v where v: "map_of ?m ''decision'' = Some v"
    by (auto split: option.splits)
  with assms(1) run [of w1] have r: "r = top w1" "w1' = ?w' w1"
    by auto
  have "same_but_clock t (?w' w1) (?w' w2)"
    using assms(2) by (rule same_but_clock_alloc) (rule erase_resolved)
  moreover from assms(2) have "top w2 = top w1"
    by (simp add: same_but_clock_def)
  ultimately show ?thesis
    using run [of w2] r v by auto
qed

lemma prompt_loop_sim:
  "prompt_loop rp ds lines w1 = Inr (r, w1') \<Longrightarrow> same_but_clock t w1 w2 \<Longrightarrow>
   \<exists>w2'. prompt_loop rp ds lines w2 = Inr (r, w2') \<and> same_but_clock t w1' w2'"
proof (induction lines arbitrary: w1 w2)
  case Nil
  then show ?case by simp
next
  case (Cons line lines)
  let ?v1 = "w1\<lparr>stdin := lines\<rparr>" and ?v2 = "w2\<lparr>stdin := lines\<rparr>"
  have sim: "same_but_clock t ?v1 ?v2"
    using Cons.prems(2) by (rule same_but_clock_stdin)
  note run = Cons.prems(1) [unfolded prompt_loop_first]
  consider (one) "str_strip line = ''1''" | (two) "str_strip line = ''2''"
    | (three) "str_strip line = ''3''" | (four) "str_strip line = ''4''"
    | (five) "str_strip line = ''5''"
    | (other) "str_strip line \<notin> {''1'', ''2'', ''3'', ''4'', ''5''}"
    by blast
  then show ?case
  proof cases
    case one
    with run have "manual_choice rp ''INCLUDE'' ''manual_include'' ds ?v1 = Inr (r, w1')"
      by simp
    from manual_choice_sim [OF this sim] one show ?thesis
      by (simp add: prompt_loop_first)
  next
    case two
    with run have "manual_choice rp ''EXCLUDE'' ''manual_exclude'' ds ?v1 = Inr (r, w1')"
      by simp
    from manual_choice_sim [OF this sim] two show ?thesis
      by (simp add: prompt_loop_first)
  next
    case three
    with run have "highest_confidence ds ?v1 = Inr (r, w1')"
      by simp
    from highest_confidence_sim [OF this sim] three show ?thesis
      by (simp add: prompt_loop_first)
  next
    case four
    with run have "most_recent ds ?v1 = Inr (r, w1')"
      by simp
    from most_recent_sim [OF this sim] four show ?thesis
      by (simp add: prompt_loop_first)
  next
    case five
    with run have d: "for_each show_detail ds = Inr ()"
      and again: "prompt_loop rp ds lines ?v1 = Inr (r, w1')"
      by (auto split: sum.splits)
    from Cons.IH [OF again sim] five d show ?thesis
      by (simp add: prompt_loop_first)
  next
    case other
    with run have again: "prompt_loop rp ds lines ?v1 = Inr (r, w1')"
      by (auto split: if_splits)
    from Cons.IH [OF again sim] other show ?thesis
      by (simp add: prompt_loop_first)
  qed
qed

lemma same_but_clock_members:
  assumes "same_but_clock t w1 w2" and "\<forall>a \<in> set g. a < t"
  shows "map (heap w1) g = map (heap w2) g"
  using assms by (simp add: same_but_clock_def)

lemma process_loop_sim:
  "process_loop rp gs up dr cr w1 = Inr res \<Longrightarrow> same_but_clock t w1 w2 \<Longrightarrow>
   \<forall>a \<in> group_refs gs. a < t \<Longrightarrow>
   \<exists>w2'. process_loop rp gs up dr cr w2 = Inr (fst res, fst (snd res), fst (snd (snd res)), w2') \<and>
     same_but_clock t (snd (snd (snd res))) w2'"
proof (induction gs arbitrary: up dr cr w1 w2)
  case Nil
  then show ?case by auto
next
  case (Cons kg gs)
  obtain k g where kg: "kg = (k, g)" by (cases kg)
  note run = Cons.prems(1) [unfolded kg]
  have below: "\<forall>a \<in> set g. a < t" "\<forall>a \<in> group_refs gs. a < t"
    using Cons.prems(3) by (auto simp: kg group_refs_def)
  have mem: "map (heap w1) g = map (heap w2) g"
    using Cons.prems(2) below(1) by (rule same_but_clock_members)
  show ?case
  proof (cases "length g = 1")
    case True
    with run have "process_loop rp gs (up @ [hd g]) dr cr w1 = Inr res"
      by simp
    from Cons.IH [OF this Cons.prems(2) below(2)] True show ?thesis
      by (simp add: kg)
  next
    case False
    from run False obtain decisions where
      ud: "unique_decisions (decisions_of (map (heap w1) g)) = Inr decisions"
      by (auto simp: Let_def split: sum.splits)
    show ?thesis
    proof (cases "card decisions = 1")
      case True
      with run False ud obtain rep tl where g: "g = rep # tl"
        by (cases g) (auto simp: Let_def)
      let ?x = "dict_set ''duplicate_sources''
          (JList (map duplicate_source (map (heap w1) g))) (heap w1 rep)"
      let ?v1 = "w1\<lparr>heap := (heap w1)(rep := ?x)\<rparr>" and ?v2 = "w2\<lparr>heap := (heap w2)(rep := ?x)\<rparr>"
      from run False ud True g have
        r1: "process_loop rp gs (up @ [rep]) (dr + (int (length g) - 1)) cr ?v1 = Inr res"
        by (simp add: Let_def)
      have sim: "same_but_clock t ?v1 ?v2"
        using Cons.prems(2) by (auto simp: same_but_clock_def)
      from mem g have rep: "heap w2 rep = heap w1 rep"
        by simp
      have ud2: "unique_decisions (decisions_of (map (heap w2) g)) = Inr decisions"
        unfolding mem [symmetric] by (rule ud)
      have "process_loop rp ((k, g) # gs) up dr cr w2 =
          process_loop rp gs (up @ [rep]) (dr + (int (length g) - 1)) cr ?v2"
        unfolding process_loop.simps Let_def mem [symmetric] ud
        using False True by (simp add: g rep)
      with Cons.IH [OF r1 sim below(2)] show ?thesis
        by (simp add: kg)
    next
      case c: False
      from run False ud c obtain r v1 where
        res: "resolve_screening_conflict rp g k w1 = Inr (r, v1)" and
        r1: "process_loop rp gs (up @ [r]) (dr + (int (length g) - 1)) (cr + 1) v1 = Inr res"
        by (auto simp: Let_def split: sum.splits)
      from res have sc: "show_conflict (map (heap w1) g) = Inr ()"
        and pl: "prompt_loop rp (map (heap w1) g) (stdin w1) w1 = Inr (r, v1)"
        by (auto simp: resolve_screening_conflict_def Let_def split: sum.splits)
      from prompt_loop_sim [OF pl Cons.prems(2)] obtain v2 where
        pl2: "prompt_loop rp (map (heap w1) g) (stdin w1) w2 = Inr (r, v2)" and
        sim: "same_but_clock t v1 v2"
        by blast
      from Cons.prems(2) have "stdin w2 = stdin w1"
        by (simp add: same_but_clock_def)
      with pl2 sc have "resolve_screening_conflict rp g k w2 = Inr (r, v2)"
        by (simp add: resolve_screening_conflict_def Let_def mem [symmetric])
      then have "process_loop rp ((k, g) # gs) up dr cr w2 =
          process_loop rp gs (up @ [r]) (dr + (int (length g) - 1)) (cr + 1) v2"
        using False ud c by (simp add: Let_def mem [symmetric])
      with Cons.IH [OF r1 sim below(2)] show ?thesis
        by (simp add: kg)
    qed
  qed
qed

text \<open>
  Claim C6, as amended. Two runs of the merge over the same store and the same answers,
  at any two clocks: when one returns, so does the other, with the same references and
  the same counters, and the records behind the references agree once the timestamp of
  \<^verbatim>\<open>conflict_resolution\<close> is blanked.
\<close>

theorem reproducible_up_to_timestamp:
  assumes "deduplicate_with_conflict_resolution rp papers w1 = Inr ((out, dr, cr), w1')"
    and "\<forall>a \<in> set papers. a < top w1"
    and "heap w2 = heap w1" and "top w2 = top w1" and "stdin w2 = stdin w1"
    and "ticks w2 = ticks w1"
  shows "\<exists>w2'. deduplicate_with_conflict_resolution rp papers w2 = Inr ((out, dr, cr), w2') \<and>
           map (\<lambda>a. erase_timestamp (heap w2' a)) out = map (\<lambda>a. erase_timestamp (heap w1' a)) out"
proof (cases "papers = []")
  case True
  with assms(1) show ?thesis
    by (simp add: deduplicate_with_conflict_resolution_def)
next
  case False
  with assms(1) obtain pg noid outs where
    gl: "group_loop (heap w1) papers [] [] = Inr (pg, noid)" and
    pl: "process_loop rp pg [] 0 0 w1 = Inr (outs, dr, cr, w1')" and
    out: "out = outs @ noid"
    by (auto simp: deduplicate_with_conflict_resolution_def split: sum.splits)
  have pg: "pg = identity_groups (heap w1) papers"
    using group_loop_identity_groups [OF gl] by simp
  have below: "\<forall>a \<in> group_refs pg. a < top w1"
    using assms(2) by (simp add: pg group_refs_identity_groups)
  have sim: "same_but_clock (top w1) w1 w2"
    using assms(3-6) by (simp add: same_but_clock_def)
  from process_loop_sim [OF pl sim below] obtain w2' where
    pl2: "process_loop rp pg [] 0 0 w2 = Inr (outs, dr, cr, w2')" and
    sim': "same_but_clock (top w1) w1' w2'"
    by auto
  from sim' have "map (\<lambda>a. erase_timestamp (heap w2' a)) out = map (\<lambda>a. erase_timestamp (heap w1' a)) out"
    by (simp add: same_but_clock_def)
  moreover from False gl pl2 out have
    "deduplicate_with_conflict_resolution rp papers w2 = Inr ((out, dr, cr), w2')"
    by (simp add: deduplicate_with_conflict_resolution_def assms(3))
  ultimately show ?thesis
    by blast
qed

text \<open>
  Claim C6 as stated fails: the same input and the same answer at two different times
  give records that differ (in the timestamp of the resolution).
\<close>

theorem timestamp_counterexample:
  "merged_papers (deduplicate_with_conflict_resolution decisions_text [0, 1]
     (world_of [paper_y1, paper_y2] [''3''] ''2025-01-11T10:00:00'')) \<noteq>
   merged_papers (deduplicate_with_conflict_resolution decisions_text [0, 1]
     (world_of [paper_y1, paper_y2] [''3''] ''2025-01-12T10:00:00''))"
  by (simp add: eval_defs paper_y1_def paper_y2_def)

section \<open>The properties at concrete inputs\<close>

lemma merge_returned:
  assumes "merge_summary X = Some (dr, cr)"
  shows "\<exists>w'. X = Inr ((merged_refs X, dr, cr), w') \<and> heap w' = store_after X"
  using assms by (cases X) (auto simp: merge_summary_def merged_refs_def store_after_def)

lemma resolve_returned:
  assumes "\<not> isl X"
  shows "\<exists>w'. X = Inr (resolved_ref X, w') \<and> heap w' = store_after X"
  using assms by (cases X) (auto simp: resolved_ref_def store_after_def)

lemmas paper_defs = paper_x1_def paper_x2_def paper_x3_def paper_y1_def paper_y2_def
  paper_plain_def paper_z_def paper_undecided_def paper_url_def paper_bare_def
  paper_t_def paper_v1_def paper_v2_def paper_u1_def paper_u2_def

lemmas world_defs = world_a_def world_b_def world_c_def world_d_def world_e_def world_f_def
  world_g_def world_h_def world_k_def world_m_def

lemmas obs_defs = merged_refs_def store_after_def resolved_ref_def unanimous_def
  decisions_differ_def world_a_def world_b_def

text \<open>
  Claim C9 at the three unanimous records of one paper.
\<close>

theorem unanimous_representative_witness:
  "merged_refs (deduplicate_with_conflict_resolution decisions_text [0, 1, 2] world_a) ! 0 = 0 \<and>
   store_after (deduplicate_with_conflict_resolution decisions_text [0, 1, 2] world_a) 0 =
     dict_set ''duplicate_sources'' (JList (map duplicate_source [paper_x1, paper_x2, paper_x3]))
       paper_x1"
proof -
  let ?X = "deduplicate_with_conflict_resolution decisions_text [0, 1, 2] world_a"
  have "merge_summary ?X = Some (2, 0)"
    by (simp add: eval_defs obs_defs paper_defs)
  from merge_returned [OF this] obtain w' where
    run: "?X = Inr ((merged_refs ?X, 2, 0), w')" and w': "heap w' = store_after ?X"
    by blast
  have valid: "\<forall>a \<in> set [0, 1, 2]. a < top world_a"
    by (simp add: world_a_def world_of_def)
  have groups: "identity_groups (heap world_a) [0, 1, 2] = [(''doi:10.1/x'', [0, 1, 2])]"
    by (simp add: group_defs eval_defs obs_defs paper_defs)
  have i: "0 < length (identity_groups (heap world_a) [0, 1, 2])"
    unfolding groups by simp
  have g: "[0, 1, 2] = snd (identity_groups (heap world_a) [0, 1, 2] ! 0)"
    unfolding groups by simp
  have un: "unanimous (map (heap world_a) [0, 1, 2])"
    by (simp add: eval_defs obs_defs paper_defs)
  from unanimous_representative_in_place [OF run valid i g _ un]
  show ?thesis
    by (simp add: w' world_a_def world_of_def)
qed

text \<open>
  Claim C4 at six records: three unanimous records of one paper, two conflicting records
  of another and a record without identifier, with one answer on the input. The merge
  returns, with 3 duplicates removed and 1 conflict resolved.
\<close>

theorem conflict_accounting_witness:
  "(\<exists>out w'. deduplicate_with_conflict_resolution decisions_text [0, 1, 2, 3, 4, 5] world_k =
      Inr ((out, 3, 1), w')) \<and>
   map snd (identity_groups (heap world_k) [0, 1, 2, 3, 4, 5]) = [[0, 2, 5], [1, 4]] \<and>
   \<not> decisions_differ (map (heap world_k) [0, 2, 5]) \<and>
   decisions_differ (map (heap world_k) [1, 4])"
proof -
  let ?gs = "map snd (identity_groups (heap world_k) [0, 1, 2, 3, 4, 5])"
  have valid: "\<forall>a \<in> set [0, 1, 2, 3, 4, 5]. a < top world_k"
    by (simp add: world_k_def world_of_def)
  have h: "map (heap world_k) [0, 1, 2, 3, 4, 5] =
      [paper_x1, paper_y1, paper_x2, paper_plain, paper_y2, paper_x3]"
    by (simp add: world_k_def world_of_def)
  have "list_all screened_record [paper_x1, paper_y1, paper_x2, paper_plain, paper_y2, paper_x3]"
    by (simp add: screened_record_def optional_text_def paper_defs)
  then have scr: "\<forall>a \<in> set [0, 1, 2, 3, 4, 5]. screened_record (heap world_k a)"
    unfolding h [symmetric] by (simp only: list_all_iff set_map ball_simps)
  have ans: "\<forall>l \<in> set (stdin world_k). str_strip l \<in> {''1'', ''2'', ''3'', ''4''}"
    by (simp add: world_k_def world_of_def str_strip_def is_space_def)
  have groups: "?gs = [[0, 2, 5], [1, 4]]"
    by (simp add: group_defs eval_defs world_k_def paper_defs)
  have same: "\<not> decisions_differ (map (heap world_k) [0, 2, 5])"
    by (simp add: decisions_differ_def decisions_of_def dict_get_def world_k_def world_of_def
        paper_defs)
  have differ: "decisions_differ (map (heap world_k) [1, 4])"
    by (auto simp: decisions_differ_def decisions_of_def dict_get_def world_k_def world_of_def
        paper_defs)
  have cr: "length (filter (\<lambda>g. decisions_differ (map (heap world_k) g)) ?gs) = 1"
    unfolding groups using same differ by simp
  have dr: "(\<Sum>g\<leftarrow>filter (\<lambda>g. 1 < length g) ?gs. int (length g) - 1) = 3"
    unfolding groups by simp
  have enough: "length (filter (\<lambda>g. decisions_differ (map (heap world_k) g)) ?gs) \<le>
      length (stdin world_k)"
    unfolding cr by (simp add: world_k_def world_of_def)
  from conflict_accounting [OF valid, of decisions_text] scr ans enough
  have "\<exists>out w'. deduplicate_with_conflict_resolution decisions_text [0, 1, 2, 3, 4, 5] world_k =
      Inr ((out, (\<Sum>g\<leftarrow>filter (\<lambda>g. 1 < length g) ?gs. int (length g) - 1),
            int (length (filter (\<lambda>g. decisions_differ (map (heap world_k) g)) ?gs))), w')"
    by blast
  then have "\<exists>out w'. deduplicate_with_conflict_resolution decisions_text [0, 1, 2, 3, 4, 5] world_k =
      Inr ((out, 3, 1), w')"
    unfolding cr dr by simp
  with groups same differ show ?thesis
    by (intro conjI)
qed

text \<open>
  Claim C1, as amended, at a unanimous and a conflicting group, resolved by the answer 4:
  the entries of \<^verbatim>\<open>duplicate_sources\<close> on the first, the entries of
  \<^verbatim>\<open>original_decisions\<close> on the second, which has no \<^verbatim>\<open>duplicate_sources\<close>.
\<close>

theorem audit_trail_witness:
  "\<exists>w'. deduplicate_with_conflict_resolution decisions_text [0, 1, 2, 3] (world_g [''4'']) =
           Inr (([0, 4], 2, 1), w') \<and>
     map_of (heap w' 0) ''duplicate_sources'' =
       Some (JList
         [JObj [(''source_query_id'', JNum 1), (''source_query_description'', JStr ''query one''),
                (''decision'', JStr ''INCLUDE''), (''confidence'', JNum 0.5),
                (''reason'', JStr ''relevant'')],
          JObj [(''source_query_id'', JNum 2), (''source_query_description'', JStr ''query two''),
                (''decision'', JStr ''INCLUDE''), (''confidence'', JNum 0.25),
                (''reason'', JStr ''survey'')]]) \<and>
     original_decisions_of (heap w' 4) =
       Some (JList
         [JObj [(''query'', JStr ''query one''), (''decision'', JStr ''EXCLUDE''),
                (''confidence'', JNum 0.5), (''reason'', JStr ''off topic'')],
          JObj [(''query'', JStr ''query two''), (''decision'', JStr ''INCLUDE''),
                (''confidence'', JNum 0.75), (''reason'', JStr ''on topic'')]]) \<and>
     map_of (heap w' 4) ''duplicate_sources'' = None"
proof -
  let ?w = "world_g [''4'']"
  have "\<exists>w'. deduplicate_with_conflict_resolution decisions_text [0, 1, 2, 3] ?w =
           Inr (([0, 4], 2, 1), w') \<and>
     (map_of (heap w' 0) ''duplicate_sources'' =
       Some (JList
         [JObj [(''source_query_id'', JNum 1), (''source_query_description'', JStr ''query one''),
                (''decision'', JStr ''INCLUDE''), (''confidence'', JNum 0.5),
                (''reason'', JStr ''relevant'')],
          JObj [(''source_query_id'', JNum 2), (''source_query_description'', JStr ''query two''),
                (''decision'', JStr ''INCLUDE''), (''confidence'', JNum 0.25),
                (''reason'', JStr ''survey'')]]) \<and>
     original_decisions_of (heap w' 4) =
       Some (JList
         [JObj [(''query'', JStr ''query one''), (''decision'', JStr ''EXCLUDE''),
                (''confidence'', JNum 0.5), (''reason'', JStr ''off topic'')],
          JObj [(''query'', JStr ''query two''), (''decision'', JStr ''INCLUDE''),
                (''confidence'', JNum 0.75), (''reason'', JStr ''on topic'')]]))"
    by (simp add: eval_defs paper_defs world_defs original_decisions_of_def)
  then obtain w' where
    run: "deduplicate_with_conflict_resolution decisions_text [0, 1, 2, 3] ?w =
           Inr (([0, 4], 2, 1), w')" and
    sources: "map_of (heap w' 0) ''duplicate_sources'' =
       Some (JList
         [JObj [(''source_query_id'', JNum 1), (''source_query_description'', JStr ''query one''),
                (''decision'', JStr ''INCLUDE''), (''confidence'', JNum 0.5),
                (''reason'', JStr ''relevant'')],
          JObj [(''source_query_id'', JNum 2), (''source_query_description'', JStr ''query two''),
                (''decision'', JStr ''INCLUDE''), (''confidence'', JNum 0.25),
                (''reason'', JStr ''survey'')]])" and
    originals: "original_decisions_of (heap w' 4) =
       Some (JList
         [JObj [(''query'', JStr ''query one''), (''decision'', JStr ''EXCLUDE''),
                (''confidence'', JNum 0.5), (''reason'', JStr ''off topic'')],
          JObj [(''query'', JStr ''query two''), (''decision'', JStr ''INCLUDE''),
                (''confidence'', JNum 0.75), (''reason'', JStr ''on topic'')]])"
    by (elim exE conjE) (rule that)
  have valid: "\<forall>a \<in> set [0, 1, 2, 3]. a < top ?w"
    by (simp add: world_g_def world_of_def)
  have groups: "identity_groups (heap ?w) [0, 1, 2, 3] =
      [(''doi:10.1/u'', [0, 2]), (''doi:10.1/v'', [1, 3])]"
    by (simp add: group_defs eval_defs paper_defs world_defs)
  have i: "1 < length (identity_groups (heap ?w) [0, 1, 2, 3])"
    unfolding groups by simp
  have g: "[1, 3] = snd (identity_groups (heap ?w) [0, 1, 2, 3] ! 1)"
    unfolding groups by simp
  have nu: "\<not> unanimous (map (heap ?w) [1, 3])"
    by (simp add: eval_defs unanimous_def paper_defs world_defs)
  have members: "map_of (heap ?w 1) ''duplicate_sources'' = None"
    "map_of (heap ?w 3) ''duplicate_sources'' = None"
    by (simp_all add: world_of_def paper_defs world_defs)
  have len: "1 < length [1, 3::nat]"
    by simp
  from audit_trail_of_groups [OF run valid i g len] nu
  have "\<exists>a \<in> set [1, 3]. map_of (heap w' ([0, 4] ! 1)) ''duplicate_sources'' =
      map_of (heap ?w a) ''duplicate_sources''"
    by blast
  with members have none: "map_of (heap w' 4) ''duplicate_sources'' = None"
    by auto
  from run sources originals none show ?thesis
    by (intro exI [of _ w'] conjI)
qed

text \<open>
  Claim C2, as amended, at a DOI with capitals and blanks, the same DOI in lower case,
  and another DOI.
\<close>

theorem doi_identity_witness:
  "key_of paper_upper = Some ''doi:10.1/x'' \<and> key_of paper_bare = Some ''doi:10.1/x'' \<and>
   key_of paper_bare \<noteq> key_of paper_z"
proof -
  let ?h = "heap world_d"
  have gl: "group_loop ?h [0, 1, 2] [] [] = Inr ([(''doi:10.1/x'', [0, 1]), (''doi:10.1/z'', [2])], [])"
    by code_simp
  have h: "?h 0 = paper_upper" "?h (Suc 0) = paper_bare" "?h 2 = paper_z"
    by (simp_all add: world_d_def world_of_def)
  have d0: "dict_get (?h 0) ''doi'' (JStr []) = JStr '' 10.1/X ''"
    and d1: "dict_get (?h 1) ''doi'' (JStr []) = JStr ''10.1/x''"
    and d2: "dict_get (?h 2) ''doi'' (JStr []) = JStr ''10.1/z''"
    by (simp_all add: world_d_def world_of_def dict_get_def paper_upper_def paper_bare_def
        paper_z_def)
  have n: "normalized_doi '' 10.1/X '' = ''10.1/x''" "normalized_doi ''10.1/x'' = ''10.1/x''"
    "normalized_doi ''10.1/z'' = ''10.1/z''"
    by code_simp+
  have m: "(0::nat) \<in> set [0, 1, 2]" "(1::nat) \<in> set [0, 1, 2]" "(2::nat) \<in> set [0, 1, 2]"
    by simp_all
  from doi_identity_without_url_stripping [OF gl m(1) m(2) d0 d1]
    doi_identity_without_url_stripping [OF gl m(2) m(3) d1 d2]
  show ?thesis
    by (simp add: n h)
qed

text \<open>
  Claim C3, as amended: a conflicting group and no input, and two conflicting groups with
  one answer, where the input runs out at the second group and the merge completes once
  a second answer is there.
\<close>

theorem no_collaborator_witness:
  "resolve_screening_conflict decisions_text [0, 1] ''doi:10.1/y'' world_e = Inl EOFError \<and>
   deduplicate_with_conflict_resolution decisions_text [0, 1, 2] world_e = Inl EOFError \<and>
   merge_summary (deduplicate_with_conflict_resolution decisions_text [0, 1, 2, 3]
     (world_m [''3'', ''1''])) = Some (2, 2) \<and>
   deduplicate_with_conflict_resolution decisions_text [0, 1, 2, 3] (world_m [''3'']) = Inl EOFError"
proof -
  have valid_e: "\<forall>a \<in> set [0, 1, 2]. a < top world_e"
    by (simp add: world_e_def world_of_def)
  have none: "\<forall>l \<in> set (stdin world_e). str_strip l \<notin> {''1'', ''2'', ''3'', ''4'', ''5''}"
    by (simp add: world_e_def world_of_def)
  have shown: "show_conflict (map (heap world_e) [0, 1]) = Inr ()"
    by (simp add: eval_defs world_defs paper_defs)
  have groups_e: "map snd (identity_groups (heap world_e) [0, 1, 2]) = [[0, 1], [2]]"
    by (simp add: group_defs eval_defs world_defs paper_defs)
  have differ_e: "decisions_differ (map (heap world_e) [0, 1])"
    "\<not> decisions_differ (map (heap world_e) [2])"
    by (auto simp: eval_defs obs_defs world_defs paper_defs)
  have few_e: "length (stdin world_e) <
      length (filter (\<lambda>g. decisions_differ (map (heap world_e) g))
        (map snd (identity_groups (heap world_e) [0, 1, 2])))"
    unfolding groups_e using differ_e by (simp add: world_e_def world_of_def)
  have "merge_summary (deduplicate_with_conflict_resolution decisions_text [0, 1, 2]
      (world_e\<lparr>stdin := stdin world_e @ [''3'']\<rparr>)) = Some (1, 1)"
    by (simp add: eval_defs world_defs paper_defs)
  from merge_returned [OF this] obtain res_e where
    run_e: "deduplicate_with_conflict_resolution decisions_text [0, 1, 2]
      (world_e\<lparr>stdin := stdin world_e @ [''3'']\<rparr>) = Inr res_e"
    by blast
  note at_e = no_collaborator_aborts_merge [OF valid_e, where g = "[0, 1]" and rp = decisions_text and k = "''doi:10.1/y''"]
  from at_e none shown have r1:
    "resolve_screening_conflict decisions_text [0, 1] ''doi:10.1/y'' world_e = Inl EOFError"
    by blast
  from at_e few_e run_e have r2:
    "deduplicate_with_conflict_resolution decisions_text [0, 1, 2] world_e = Inl EOFError"
    by blast
  let ?w = "world_m [''3'']"
  have valid_m: "\<forall>a \<in> set [0, 1, 2, 3]. a < top ?w"
    by (simp add: world_m_def world_of_def)
  have groups_m: "map snd (identity_groups (heap ?w) [0, 1, 2, 3]) = [[0, 2], [1, 3]]"
    by (simp add: group_defs eval_defs world_defs paper_defs)
  have differ_m: "decisions_differ (map (heap ?w) [0, 2])" "decisions_differ (map (heap ?w) [1, 3])"
    by (auto simp: eval_defs obs_defs world_defs paper_defs)
  have few_m: "length (stdin ?w) <
      length (filter (\<lambda>g. decisions_differ (map (heap ?w) g))
        (map snd (identity_groups (heap ?w) [0, 1, 2, 3])))"
    unfolding groups_m using differ_m by (simp add: world_m_def world_of_def)
  have longer: "?w\<lparr>stdin := stdin ?w @ [''1'']\<rparr> = world_m [''3'', ''1'']"
    by (simp add: world_m_def world_of_def)
  have r3: "merge_summary (deduplicate_with_conflict_resolution decisions_text [0, 1, 2, 3]
      (world_m [''3'', ''1''])) = Some (2, 2)"
    by (simp add: eval_defs world_defs paper_defs)
  from merge_returned [OF this] obtain res_m where
    run_m: "deduplicate_with_conflict_resolution decisions_text [0, 1, 2, 3]
      (?w\<lparr>stdin := stdin ?w @ [''1'']\<rparr>) = Inr res_m"
    unfolding longer by blast
  note at_m = no_collaborator_aborts_merge [OF valid_m, where rp = decisions_text]
  from at_m few_m run_m have r4:
    "deduplicate_with_conflict_resolution decisions_text [0, 1, 2, 3] ?w = Inl EOFError"
    by blast
  have gl: "group_loop (heap ?w) [0, 1, 2, 3] [] [] =
      Inr ([(''doi:10.1/y'', [0, 2])] @ (''doi:10.1/v'', [1, 3]) # [], [])"
    by (simp add: eval_defs world_defs paper_defs)
  have "\<exists>w1. process_loop decisions_text [(''doi:10.1/y'', [0, 2])] [] 0 0 ?w = Inr ([4], 1, 1, w1) \<and>
      (stdin w1 = [] \<and> map (heap w1) [1, 3] = [paper_v1, paper_v2])"
    by (simp add: eval_defs world_defs paper_defs)
  then obtain w1 where
    reached: "process_loop decisions_text [(''doi:10.1/y'', [0, 2])] [] 0 0 ?w = Inr ([4], 1, 1, w1)"
    and left: "stdin w1 = []" and members: "map (heap w1) [1, 3] = [paper_v1, paper_v2]"
    by (elim exE conjE) (rule that)
  have len: "1 < length [1, 3::nat]"
    by simp
  have hashable: "list_all hashable (decisions_of (map (heap w1) [1, 3]))"
    unfolding members by (simp add: decisions_of_def dict_get_def paper_defs)
  have differ: "decisions_differ (map (heap w1) [1, 3])"
    unfolding members by (auto simp: decisions_differ_def decisions_of_def dict_get_def paper_defs)
  have shown1: "show_conflict (map (heap w1) [1, 3]) = Inr ()"
    unfolding members by (simp add: eval_defs paper_defs)
  have none1: "\<forall>l \<in> set (stdin w1). str_strip l \<notin> {''1'', ''2'', ''3'', ''4'', ''5''}"
    unfolding left by simp
  have "\<forall>a \<in> set []. a < top w1"
    by simp
  from no_collaborator_aborts_merge [OF this, where g = "[1, 3]" and rp = decisions_text and
      k = "''doi:10.1/v''"] none1 shown1
  have raised: "resolve_screening_conflict decisions_text [1, 3] ''doi:10.1/v'' w1 = Inl EOFError"
    by blast
  from at_m gl reached len hashable differ raised have r5:
    "deduplicate_with_conflict_resolution decisions_text [0, 1, 2, 3] ?w = Inl EOFError"
    by blast
  from r1 r2 r3 r4 r5 show ?thesis
    by (intro conjI)
qed

text \<open>
  Claim C5 at the decisions INCLUDE (0.9) and EXCLUDE (0.8), and at three members with
  the confidences 0.6, 0.95 and 0.95, where the answer 3 comes after a request for
  details and an invalid line: the second member is selected.
\<close>

theorem highest_confidence_witness:
  "map_of (store_after (resolve_screening_conflict decisions_text [0, 1] ''doi:10.1/y'' (world_f ''3''))
      (resolved_ref (resolve_screening_conflict decisions_text [0, 1] ''doi:10.1/y'' (world_f ''3''))))
      ''decision'' = Some (JStr ''INCLUDE'') \<and>
   map_of (store_after (resolve_screening_conflict decisions_text [0, 1] ''doi:10.1/y'' (world_f ''3''))
      (resolved_ref (resolve_screening_conflict decisions_text [0, 1] ''doi:10.1/y'' (world_f ''3''))))
      ''confidence'' = Some (JNum 0.9) \<and>
   method_of (store_after (resolve_screening_conflict decisions_text [0, 1] ''doi:10.1/y'' (world_f ''3''))
      (resolved_ref (resolve_screening_conflict decisions_text [0, 1] ''doi:10.1/y'' (world_f ''3'')))) =
      Some (JStr ''highest_confidence'') \<and>
   map_of (store_after (resolve_screening_conflict decisions_text [0, 1, 2] ''doi:10.1/x'' world_h)
      (resolved_ref (resolve_screening_conflict decisions_text [0, 1, 2] ''doi:10.1/x'' world_h)))
      ''decision'' = Some (JStr ''EXCLUDE'') \<and>
   map_of (store_after (resolve_screening_conflict decisions_text [0, 1, 2] ''doi:10.1/x'' world_h)
      (resolved_ref (resolve_screening_conflict decisions_text [0, 1, 2] ''doi:10.1/x'' world_h)))
      ''confidence'' = Some (JNum 0.95) \<and>
   map_of (store_after (resolve_screening_conflict decisions_text [0, 1, 2] ''doi:10.1/x'' world_h)
      (resolved_ref (resolve_screening_conflict decisions_text [0, 1, 2] ''doi:10.1/x'' world_h)))
      ''reason'' = Some (JStr ''r4'') \<and>
   method_of (store_after (resolve_screening_conflict decisions_text [0, 1, 2] ''doi:10.1/x'' world_h)
      (resolved_ref (resolve_screening_conflict decisions_text [0, 1, 2] ''doi:10.1/x'' world_h))) =
      Some (JStr ''highest_confidence'')"
proof -
  let ?B = "resolve_screening_conflict decisions_text [0, 1] ''doi:10.1/y'' (world_f ''3'')"
  let ?H = "resolve_screening_conflict decisions_text [0, 1, 2] ''doi:10.1/x'' world_h"
  have conf: "dict_get paper_y1 ''confidence'' (JNum 0) = JNum 0.9"
    "dict_get paper_y2 ''confidence'' (JNum 0) = JNum 0.8"
    "dict_get paper_x2 ''confidence'' (JNum 0) = JNum 0.6"
    "dict_get paper_t ''confidence'' (JNum 0) = JNum 0.95"
    "dict_get paper_x3 ''confidence'' (JNum 0) = JNum 0.95"
    by (simp_all add: dict_get_def paper_defs paper_t_def)
  have st_b: "stdin (world_f ''3'') = [] @ ''3'' # []"
    by (simp add: world_f_def world_of_def)
  have none: "\<forall>l \<in> set []. str_strip l \<notin> {''1'', ''2'', ''3'', ''4''}"
    by simp
  have ans_b: "str_strip ''3'' = ''3''"
    by (simp add: str_strip_def is_space_def)
  have members_b: "map (heap (world_f ''3'')) [0, 1] = [paper_y1, paper_y2]"
    by (simp add: world_f_def world_of_def)
  note at_b = highest_confidence_first_maximum [OF st_b none ans_b, where rp = decisions_text
      and g = "[0, 1]" and k = "''doi:10.1/y''"]
  have "list_all screened_record [paper_y1, paper_y2]"
    by (simp add: screened_record_def optional_text_def paper_defs)
  then have scr_b: "\<forall>a \<in> set [0, 1]. screened_record (heap (world_f ''3'') a)"
    unfolding members_b [symmetric] by (simp only: list_all_iff set_map ball_simps)
  from at_b scr_b have "\<not> isl ?B"
    by auto
  from resolve_returned [OF this] obtain wb where
    run_b: "?B = Inr (resolved_ref ?B, wb)" and wb: "heap wb = store_after ?B"
    by blast
  from at_b [THEN conjunct1, rule_format, OF run_b, unfolded members_b]
  obtain pre m post cm where
    split: "[paper_y1, paper_y2] = pre @ m # post" and
    cm: "dict_get m ''confidence'' (JNum 0) = JNum cm" and
    before: "\<forall>p \<in> set pre. \<exists>c. dict_get p ''confidence'' (JNum 0) = JNum c \<and> c < cm" and
    copy: "\<forall>key. key \<noteq> ''conflict_resolution'' \<longrightarrow>
             map_of (heap wb (resolved_ref ?B)) key = map_of m key" and
    recorded: "method_of (heap wb (resolved_ref ?B)) = Some (JStr ''highest_confidence'')"
    by (elim exE conjE) (rule that)
  from split consider
    (first) "pre = []" "m = paper_y1" "post = [paper_y2]"
    | (second) "pre = [paper_y1]" "m = paper_y2" "post = []"
    by (auto simp: Cons_eq_append_conv)
  then have m: "m = paper_y1"
  proof cases
    case first
    then show ?thesis by simp
  next
    case second
    with cm before conf show ?thesis by auto
  qed
  from copy have "map_of (heap wb (resolved_ref ?B)) ''decision'' = map_of paper_y1 ''decision''"
    "map_of (heap wb (resolved_ref ?B)) ''confidence'' = map_of paper_y1 ''confidence''"
    unfolding m by simp_all
  with recorded have scenario_b:
    "map_of (store_after ?B (resolved_ref ?B)) ''decision'' = Some (JStr ''INCLUDE'')"
    "map_of (store_after ?B (resolved_ref ?B)) ''confidence'' = Some (JNum 0.9)"
    "method_of (store_after ?B (resolved_ref ?B)) = Some (JStr ''highest_confidence'')"
    unfolding wb by (simp_all add: paper_y1_def)
  have "\<not> isl ?H"
    by (simp add: eval_defs world_defs paper_defs)
  from resolve_returned [OF this] obtain wh where
    run_h: "?H = Inr (resolved_ref ?H, wh)" and wh: "heap wh = store_after ?H"
    by blast
  have st_h: "stdin world_h = [''5'', ''what''] @ '' 3 '' # []"
    by (simp add: world_h_def world_of_def)
  have skipped: "\<forall>l \<in> set [''5'', ''what'']. str_strip l \<notin> {''1'', ''2'', ''3'', ''4''}"
    by (simp add: str_strip_def is_space_def)
  have ans_h: "str_strip '' 3 '' = ''3''"
    by (simp add: str_strip_def is_space_def)
  have members_h: "map (heap world_h) [0, 1, 2] = [paper_x2, paper_t, paper_x3]"
    by (simp add: world_h_def world_of_def)
  note at_h = highest_confidence_first_maximum [OF st_h skipped ans_h, where rp = decisions_text
      and g = "[0, 1, 2]" and k = "''doi:10.1/x''"]
  from at_h [THEN conjunct1, rule_format, OF run_h, unfolded members_h]
  obtain pre m post cm where
    split: "[paper_x2, paper_t, paper_x3] = pre @ m # post" and
    cm: "dict_get m ''confidence'' (JNum 0) = JNum cm" and
    before: "\<forall>p \<in> set pre. \<exists>c. dict_get p ''confidence'' (JNum 0) = JNum c \<and> c < cm" and
    after: "\<forall>p \<in> set post. \<exists>c. dict_get p ''confidence'' (JNum 0) = JNum c \<and> c \<le> cm" and
    copy: "\<forall>key. key \<noteq> ''conflict_resolution'' \<longrightarrow>
             map_of (heap wh (resolved_ref ?H)) key = map_of m key" and
    recorded: "method_of (heap wh (resolved_ref ?H)) = Some (JStr ''highest_confidence'')"
    by (elim exE conjE) (rule that)
  from split consider
    (first) "pre = []" "m = paper_x2" "post = [paper_t, paper_x3]"
    | (second) "pre = [paper_x2]" "m = paper_t" "post = [paper_x3]"
    | (third) "pre = [paper_x2, paper_t]" "m = paper_x3" "post = []"
    by (auto simp: Cons_eq_append_conv)
  then have m: "m = paper_t"
  proof cases
    case first
    with cm after conf show ?thesis by auto
  next
    case second
    then show ?thesis by simp
  next
    case third
    with cm before conf show ?thesis by auto
  qed
  from copy have "map_of (heap wh (resolved_ref ?H)) ''decision'' = map_of paper_t ''decision''"
    "map_of (heap wh (resolved_ref ?H)) ''confidence'' = map_of paper_t ''confidence''"
    "map_of (heap wh (resolved_ref ?H)) ''reason'' = map_of paper_t ''reason''"
    unfolding m by simp_all
  with recorded have run_h:
    "map_of (store_after ?H (resolved_ref ?H)) ''decision'' = Some (JStr ''EXCLUDE'')"
    "map_of (store_after ?H (resolved_ref ?H)) ''confidence'' = Some (JNum 0.95)"
    "map_of (store_after ?H (resolved_ref ?H)) ''reason'' = Some (JStr ''r4'')"
    "method_of (store_after ?H (resolved_ref ?H)) = Some (JStr ''highest_confidence'')"
    unfolding wh by (simp_all add: paper_t_def)
  from scenario_b run_h show ?thesis
    by (intro conjI)
qed


text \<open>
  Claim C6, as amended, at the same two runs.
\<close>

theorem reproducible_witness:
  "map erase_timestamp (merged_papers (deduplicate_with_conflict_resolution decisions_text [0, 1]
       (world_of [paper_y1, paper_y2] [''3''] ''2025-01-12T10:00:00''))) =
   map erase_timestamp (merged_papers (deduplicate_with_conflict_resolution decisions_text [0, 1]
       (world_of [paper_y1, paper_y2] [''3''] ''2025-01-11T10:00:00'')))"
proof -
  let ?w1 = "world_of [paper_y1, paper_y2] [''3''] ''2025-01-11T10:00:00''"
  let ?w2 = "world_of [paper_y1, paper_y2] [''3''] ''2025-01-12T10:00:00''"
  let ?X1 = "deduplicate_with_conflict_resolution decisions_text [0, 1] ?w1"
  let ?X2 = "deduplicate_with_conflict_resolution decisions_text [0, 1] ?w2"
  have "merge_summary ?X1 = Some (1, 1)"
    by (simp add: eval_defs paper_defs)
  from merge_returned [OF this] obtain w1' where
    run1: "?X1 = Inr ((merged_refs ?X1, 1, 1), w1')"
    by blast
  have valid: "\<forall>a \<in> set [0, 1]. a < top ?w1"
    by (simp add: world_of_def)
  have same: "heap ?w2 = heap ?w1" "top ?w2 = top ?w1" "stdin ?w2 = stdin ?w1" "ticks ?w2 = ticks ?w1"
    by (simp_all add: world_of_def)
  from reproducible_up_to_timestamp [OF run1 valid same] obtain w2' where
    run2: "?X2 = Inr ((merged_refs ?X1, 1, 1), w2')" and
    eq: "map (\<lambda>a. erase_timestamp (heap w2' a)) (merged_refs ?X1) =
         map (\<lambda>a. erase_timestamp (heap w1' a)) (merged_refs ?X1)"
    by blast
  have "merged_papers ?X1 = map (heap w1') (merged_refs ?X1)"
    by (subst run1) (simp add: merged_papers_def)
  moreover have "merged_papers ?X2 = map (heap w2') (merged_refs ?X1)"
    by (subst run2) (simp add: merged_papers_def)
  ultimately show ?thesis
    using eq by (simp add: comp_def)
qed

text \<open>
  Claim C7 at two identical records without identifier around a record with a DOI.
\<close>

theorem no_identifier_witness:
  "drop 1 (merged_refs (deduplicate_with_conflict_resolution decisions_text [0, 1, 2] world_c)) = [0, 2] \<and>
   store_after (deduplicate_with_conflict_resolution decisions_text [0, 1, 2] world_c) 0 = paper_plain \<and>
   store_after (deduplicate_with_conflict_resolution decisions_text [0, 1, 2] world_c) 2 = paper_plain"
proof -
  let ?X = "deduplicate_with_conflict_resolution decisions_text [0, 1, 2] world_c"
  have "merge_summary ?X = Some (0, 0)"
    by (simp add: eval_defs world_defs paper_defs)
  from merge_returned [OF this] obtain w' where
    run: "?X = Inr ((merged_refs ?X, 0, 0), w')" and w': "heap w' = store_after ?X"
    by blast
  have valid: "\<forall>a \<in> set [0, 1, 2]. a < top world_c"
    by (simp add: world_c_def world_of_def)
  have groups: "identity_groups (heap world_c) [0, 1, 2] = [(''doi:10.1/z'', [1])]"
    by (simp add: group_defs eval_defs world_defs paper_defs)
  have h: "heap world_c 0 = paper_plain" "heap world_c 1 = paper_z" "heap world_c 2 = paper_plain"
    by (simp_all add: world_c_def world_of_def)
  have n: "no_identifier paper_plain" "\<not> no_identifier paper_z"
    by (simp_all add: no_identifier_def blank_field_def paper_plain_def paper_z_def str_strip_def
        is_space_def)
  from no_identifier_papers_pass_through [OF run valid]
  show ?thesis
    unfolding groups by (simp add: w' h n)
qed

text \<open>
  Claim C1 as stated fails: the two records of one paper disagree, the merge resolves
  the conflict and emits a new record (address 3) for the group, and that record has no
  \<^verbatim>\<open>duplicate_sources\<close>.
\<close>

theorem conflicting_group_counterexample:
  "identity_groups (heap world_b) [0, 1, 2] = [(''doi:10.1/y'', [0, 1])] \<and>
   merged_refs (deduplicate_with_conflict_resolution decisions_text [0, 1, 2] world_b) = [3, 2] \<and>
   merge_summary (deduplicate_with_conflict_resolution decisions_text [0, 1, 2] world_b) = Some (1, 1) \<and>
   map_of (store_after (deduplicate_with_conflict_resolution decisions_text [0, 1, 2] world_b) 3)
     ''duplicate_sources'' = None"
  by (simp add: group_defs eval_defs obs_defs paper_defs)

text \<open>
  A confidence that is present and null, as the caller of the merge stores a missing
  one, is not read as 0.0: displaying the conflict raises \<open>TypeError\<close>.
\<close>

theorem null_confidence_type_error:
  "deduplicate_with_conflict_resolution decisions_text [0, 1]
     (world_of [paper_y1, paper_null_confidence] [''1''] ''2025-01-11T10:00:00'') = Inl TypeError"
  by (simp add: eval_defs paper_defs paper_null_confidence_def)

end
